theory Spec2Isabelle
  imports Main "HOL-Library.FSet" "HOL-Library.List_Lexorder" "HOL-Library.Char_ord"
begin

section \<open>The URL library the tools call\<close>

text \<open>
  \<open>web_audit_new.py\<close> imports \<open>urlparse\<close> and \<open>urljoin\<close> from Python's
  \<open>urllib.parse\<close>. The tools read only \<open>scheme\<close> and \<open>netloc\<close> of a parse result.
  Both library functions can raise \<open>ValueError\<close>; the left summand carries the text of
  the exception. The functions of the repository take the library as a parameter, so that
  what is proved of them for every library holds for the real one.
\<close>

record ParseResult =
  scheme :: string
  netloc :: string
  path :: string
  params :: string
  query :: string
  fragment :: string

record urllib =
  urlparse :: "string \<Rightarrow> string + ParseResult"
  urljoin :: "string \<Rightarrow> string \<Rightarrow> string + string"

definition startswith :: "string \<Rightarrow> string \<Rightarrow> bool" where
  "startswith s p = (take (length p) s = p)"

subsection \<open>A transcription of CPython 3.11 \<open>urllib/parse.py\<close>\<close>

text \<open>
  The concrete library used for the closed examples. Characters are 8-bit, so code points
  above 255 are not represented. \<open>_check_bracketed_host\<close> (which calls \<open>ipaddress\<close> and
  \<open>re\<close>) and the NFKC test of \<open>_checknetloc\<close> (which calls \<open>unicodedata\<close>) are
  parameters: each returns the text of the \<open>ValueError\<close> it raises, if any. They are
  consulted only for a netloc that holds both brackets, respectively a non-ASCII character.
\<close>

record host_checks =
  check_bracketed_host :: "string \<Rightarrow> string option"
  check_nfkc :: "string \<Rightarrow> string option"

definition no_host_errors :: host_checks where
  "no_host_errors = \<lparr>check_bracketed_host = (\<lambda>_. None), check_nfkc = (\<lambda>_. None)\<rparr>"

definition uses_relative :: "string list" where
  "uses_relative = ['''', ''ftp'', ''http'', ''gopher'', ''nntp'', ''imap'',
     ''wais'', ''file'', ''https'', ''shttp'', ''mms'',
     ''prospero'', ''rtsp'', ''rtsps'', ''rtspu'', ''sftp'',
     ''svn'', ''svn+ssh'', ''ws'', ''wss'']"

definition uses_netloc :: "string list" where
  "uses_netloc = ['''', ''ftp'', ''http'', ''gopher'', ''nntp'', ''telnet'',
     ''imap'', ''wais'', ''file'', ''mms'', ''https'', ''shttp'',
     ''snews'', ''prospero'', ''rtsp'', ''rtsps'', ''rtspu'', ''rsync'',
     ''svn'', ''svn+ssh'', ''sftp'', ''nfs'', ''git'', ''git+ssh'',
     ''ws'', ''wss'']"

definition uses_params :: "string list" where
  "uses_params = ['''', ''ftp'', ''hdl'', ''prospero'', ''http'', ''imap'',
     ''https'', ''shttp'', ''rtsp'', ''rtsps'', ''rtspu'', ''sip'',
     ''sips'', ''mms'', ''sftp'', ''tel'']"

definition ascii_lowercase :: string where
  "ascii_lowercase = ''abcdefghijklmnopqrstuvwxyz''"

definition ascii_uppercase :: string where
  "ascii_uppercase = ''ABCDEFGHIJKLMNOPQRSTUVWXYZ''"

definition scheme_chars :: string where
  "scheme_chars = ascii_lowercase @ ascii_uppercase @ ''0123456789'' @ ''+-.''"

definition isascii :: "char \<Rightarrow> bool" where
  "isascii c = (of_char c < (128::nat))"

definition c0_control_or_space :: "char \<Rightarrow> bool" where
  "c0_control_or_space c = (of_char c \<le> (32::nat))"

definition unsafe_url_byte :: "char \<Rightarrow> bool" where
  "unsafe_url_byte c = (c = CHR 0x09 \<or> c = CHR 0x0D \<or> c = CHR 0x0A)"

text \<open>\<open>str.lower\<close> on code points below 256: the ASCII letters and the Latin-1 capitals.\<close>

definition lower_char :: "char \<Rightarrow> char" where
  "lower_char c =
     (let n = (of_char c :: nat)
      in if (65 \<le> n \<and> n \<le> 90) \<or> (192 \<le> n \<and> n \<le> 222 \<and> n \<noteq> 215)
         then char_of (n + 32) else c)"

definition lower :: "string \<Rightarrow> string" where
  "lower s = map lower_char s"

definition lstrip :: "string \<Rightarrow> string" where
  "lstrip s = dropWhile c0_control_or_space s"

definition strip :: "string \<Rightarrow> string" where
  "strip s = rev (dropWhile c0_control_or_space (rev (lstrip s)))"

text \<open>\<open>s.split(c, 1)\<close> for a \<open>c\<close> that occurs in \<open>s\<close>, and \<open>s.split(c)\<close>.\<close>

definition split_first :: "char \<Rightarrow> string \<Rightarrow> string \<times> string" where
  "split_first c s = (takeWhile (\<lambda>x. x \<noteq> c) s, drop 1 (dropWhile (\<lambda>x. x \<noteq> c) s))"

fun split_on :: "char \<Rightarrow> string \<Rightarrow> string list" where
  "split_on c [] = [[]]"
| "split_on c (x # xs) =
     (if x = c then [] # split_on c xs
      else (case split_on c xs of [] \<Rightarrow> [[x]] | w # ws \<Rightarrow> (x # w) # ws))"

fun join :: "string \<Rightarrow> string list \<Rightarrow> string" where
  "join sep [] = []"
| "join sep [w] = w"
| "join sep (w # ws) = w @ sep @ join sep ws"

definition netloc_delim :: "char \<Rightarrow> bool" where
  "netloc_delim c = (c = CHR ''/'' \<or> c = CHR ''?'' \<or> c = CHR ''#'')"

definition splitnetloc :: "string \<Rightarrow> string \<times> string" where
  \<comment> \<open>\<open>_splitnetloc(url, 2)\<close> for a \<open>url\<close> that starts with two slashes\<close>
  "splitnetloc u =
     (takeWhile (\<lambda>c. \<not> netloc_delim c) (drop 2 u),
      dropWhile (\<lambda>c. \<not> netloc_delim c) (drop 2 u))"

definition bracketed_host :: "string \<Rightarrow> string" where
  \<comment> \<open>\<open>netloc.partition('[')[2].partition(']')[0]\<close>\<close>
  "bracketed_host n =
     takeWhile (\<lambda>c. c \<noteq> CHR '']'') (drop 1 (dropWhile (\<lambda>c. c \<noteq> CHR ''['') n))"

definition netloc_error :: "host_checks \<Rightarrow> string \<Rightarrow> string option" where
  "netloc_error hc n =
     (let lb = CHR ''['' \<in> set n; rb = CHR '']'' \<in> set n
      in if (lb \<and> \<not> rb) \<or> (rb \<and> \<not> lb) then Some ''Invalid IPv6 URL''
         else (case (if lb \<and> rb then check_bracketed_host hc (bracketed_host n) else None) of
                 Some e \<Rightarrow> Some e
               | None \<Rightarrow> if n = [] \<or> list_all isascii n then None else check_nfkc hc n))"

definition split_scheme :: "string \<Rightarrow> string \<Rightarrow> string \<times> string" where
  \<comment> \<open>the scheme test of \<open>urlsplit\<close>: the prefix before the first colon, when it is a scheme\<close>
  "split_scheme dflt u =
     (let pre = takeWhile (\<lambda>c. c \<noteq> CHR '':'') u
      in if CHR '':'' \<in> set u \<and> pre \<noteq> []
            \<and> isascii (hd u) \<and> hd u \<in> set (ascii_lowercase @ ascii_uppercase)
            \<and> list_all (\<lambda>c. c \<in> set scheme_chars) pre
         then (lower pre, drop (length pre + 1) u)
         else (dflt, u))"

definition urlsplit :: "host_checks \<Rightarrow> string \<Rightarrow> string \<Rightarrow> string + ParseResult" where
  "urlsplit hc url0 scheme0 =
     (let u1 = filter (\<lambda>c. \<not> unsafe_url_byte c) (lstrip url0);
          s1 = filter (\<lambda>c. \<not> unsafe_url_byte c) (strip scheme0);
          (sch, u2) = split_scheme s1 u1;
          (nl, u3) = (if take 2 u2 = ''//'' then splitnetloc u2 else ([], u2))
      in case (if take 2 u2 = ''//'' then netloc_error hc nl else None) of
           Some e \<Rightarrow> Inl e
         | None \<Rightarrow>
            (let (u4, frag) = (if CHR ''#'' \<in> set u3 then split_first (CHR ''#'') u3 else (u3, []));
                 (u5, qry) = (if CHR ''?'' \<in> set u4 then split_first (CHR ''?'') u4 else (u4, []))
             in Inr \<lparr>scheme = sch, netloc = nl, path = u5, params = [],
                     query = qry, fragment = frag\<rparr>))"

definition splitparams :: "string \<Rightarrow> string \<times> string" where
  \<comment> \<open>\<open>_splitparams\<close>; its caller has checked that a semicolon occurs\<close>
  "splitparams u =
     (if CHR ''/'' \<in> set u
      then (let tl_seg = rev (takeWhile (\<lambda>c. c \<noteq> CHR ''/'') (rev u));
                hd_part = take (length u - length tl_seg) u
            in if CHR '';'' \<in> set tl_seg
               then (hd_part @ takeWhile (\<lambda>c. c \<noteq> CHR '';'') tl_seg,
                     drop 1 (dropWhile (\<lambda>c. c \<noteq> CHR '';'') tl_seg))
               else (u, []))
      else split_first (CHR '';'') u)"

definition py_urlparse_with :: "host_checks \<Rightarrow> string \<Rightarrow> string \<Rightarrow> string + ParseResult" where
  "py_urlparse_with hc u dflt =
     (case urlsplit hc u dflt of
        Inl e \<Rightarrow> Inl e
      | Inr r \<Rightarrow>
          if scheme r \<in> set uses_params \<and> CHR '';'' \<in> set (path r)
          then (let (p, ps) = splitparams (path r) in Inr (r\<lparr>path := p, params := ps\<rparr>))
          else Inr r)"

definition urlunsplit :: "string \<Rightarrow> string \<Rightarrow> string \<Rightarrow> string \<Rightarrow> string \<Rightarrow> string" where
  "urlunsplit sch nl u0 qry frag =
     (let u1 = (if nl \<noteq> [] \<or> (sch \<noteq> [] \<and> sch \<in> set uses_netloc) \<or> take 2 u0 = ''//''
                then ''//'' @ nl @ (if u0 \<noteq> [] \<and> take 1 u0 \<noteq> ''/'' then ''/'' @ u0 else u0)
                else u0);
          u2 = (if sch \<noteq> [] then sch @ '':'' @ u1 else u1);
          u3 = (if qry \<noteq> [] then u2 @ ''?'' @ qry else u2)
      in if frag \<noteq> [] then u3 @ ''#'' @ frag else u3)"

definition urlunparse :: "ParseResult \<Rightarrow> string" where
  "urlunparse r =
     urlunsplit (scheme r) (netloc r)
       (if params r \<noteq> [] then path r @ '';'' @ params r else path r) (query r) (fragment r)"

fun resolve_segments :: "string list \<Rightarrow> string list \<Rightarrow> string list" where
  "resolve_segments [] acc = acc"
| "resolve_segments (seg # segs) acc =
     (if seg = ''..'' then resolve_segments segs (butlast acc)
      else if seg = ''.'' then resolve_segments segs acc
      else resolve_segments segs (acc @ [seg]))"

definition join_paths :: "string \<Rightarrow> string \<Rightarrow> string" where
  \<comment> \<open>the path arithmetic at the end of \<open>urljoin\<close>\<close>
  "join_paths bpath p =
     (let bp0 = split_on (CHR ''/'') bpath;
          base_parts = (if last bp0 \<noteq> [] then butlast bp0 else bp0);
          segments =
            (if take 1 p = ''/'' then split_on (CHR ''/'') p
             else (let sg = base_parts @ split_on (CHR ''/'') p
                   in if length sg \<le> 2 then sg
                      else hd sg # filter (\<lambda>w. w \<noteq> []) (butlast (tl sg)) @ [last sg]));
          resolved0 = resolve_segments segments [];
          resolved = (if last segments = ''.'' \<or> last segments = ''..''
                      then resolved0 @ [[]] else resolved0);
          joined = join ''/'' resolved
      in if joined = [] then ''/'' else joined)"

definition py_urljoin :: "host_checks \<Rightarrow> string \<Rightarrow> string \<Rightarrow> string + string" where
  "py_urljoin hc base u =
     (if base = [] then Inr u
      else if u = [] then Inr base
      else case py_urlparse_with hc base [] of
        Inl e \<Rightarrow> Inl e
      | Inr b \<Rightarrow>
         (case py_urlparse_with hc u (scheme b) of
            Inl e \<Rightarrow> Inl e
          | Inr r \<Rightarrow>
             if scheme r \<noteq> scheme b \<or> scheme r \<notin> set uses_relative then Inr u
             else if scheme r \<in> set uses_netloc \<and> netloc r \<noteq> [] then Inr (urlunparse r)
             else (let nl = (if scheme r \<in> set uses_netloc then netloc b else netloc r)
                   in if path r = [] \<and> params r = []
                      then Inr (urlunparse (r\<lparr>netloc := nl, path := path b, params := params b,
                                 query := (if query r = [] then query b else query r)\<rparr>))
                      else Inr (urlunparse (r\<lparr>netloc := nl,
                                 path := join_paths (path b) (path r)\<rparr>)))))"

definition py_urllib :: "host_checks \<Rightarrow> urllib" where
  "py_urllib hc = \<lparr>urlparse = (\<lambda>u. py_urlparse_with hc u []), urljoin = py_urljoin hc\<rparr>"


section \<open>URL helpers of \<open>web_audit_new.py\<close>\<close>

definition normalize_url :: "urllib \<Rightarrow> string \<Rightarrow> string \<Rightarrow> string + string" where
  \<comment> \<open>\<open>_normalize_url(url, base_url)\<close>; \<open>Inl\<close> when a library call raises\<close>
  "normalize_url lib u base_url =
     (if u = [] then Inr []
      else if startswith u ''http://'' \<or> startswith u ''https://'' then Inr u
      else if startswith u ''//''
      then (case urlparse lib base_url of
              Inl e \<Rightarrow> Inl e
            | Inr parsed_base \<Rightarrow> Inr (scheme parsed_base @ '':'' @ u))
      else urljoin lib base_url u)"

definition is_valid_url :: "urllib \<Rightarrow> string \<Rightarrow> bool" where
  \<comment> \<open>\<open>_is_valid_url\<close>; the bare \<open>except\<close> turns every exception into \<open>False\<close>\<close>
  "is_valid_url lib u =
     (case urlparse lib u of
        Inl e \<Rightarrow> False
      | Inr parsed \<Rightarrow>
          (scheme parsed \<noteq> [] \<and> netloc parsed \<noteq> [])
          \<and> scheme parsed \<in> set [''http'', ''https''])"

definition should_crawl_url :: "urllib \<Rightarrow> string \<Rightarrow> string \<Rightarrow> string fset \<Rightarrow> int \<Rightarrow> bool" where
  \<comment> \<open>\<open>_should_crawl_url(url, base_domain, visited, max_pages)\<close>\<close>
  "should_crawl_url lib u base_domain vis max_pages =
     (if u = [] \<or> u |\<in>| vis then False
      else if int (fcard vis) \<ge> max_pages then False
      else (case urlparse lib u of
              Inl e \<Rightarrow> False
            | Inr parsed_url \<Rightarrow>
               (case urlparse lib base_domain of
                  Inl e \<Rightarrow> False
                | Inr parsed_base \<Rightarrow> netloc parsed_url = netloc parsed_base)))"

section \<open>The site crawler\<close>

text \<open>
  What the browser session gives for one URL. \<open>render\<close> returns \<open>Inl\<close> with the text of the
  exception when \<open>page.goto\<close>, \<open>wait_for_load_state\<close>, the sleep, \<open>page.title\<close> or the
  status read raises; otherwise the facts the extraction code reads from the page:
  the title, the response status (\<open>None\<close> when \<open>goto\<close> returned no response), the
  \<open>href\<close> attributes of the \<open>a[href]\<close> elements that were read before any exception of the
  browser (\<open>None\<close> for an attribute that is absent), the resource dictionary built by
  \<open>_extract_resources_playwright\<close>, the metadata dictionary, and the body text
  (\<open>None\<close> when \<open>inner_text\<close> raised).

  \<open>set_order\<close> is the order in which Python iterates over a set of strings; the language does
  not fix it (see \<open>list_of_set\<close> below). \<open>session_error\<close> is the exception, if any, raised outside the per-page
  \<open>try\<close>: by the launch of the browser, by \<open>new_page\<close> or by \<open>browser.close\<close>.
\<close>

record page_obs =
  obs_title :: string
  obs_status :: "int option"
  obs_hrefs :: "string option list"
  obs_resources :: "(string \<times> string list) list"
  obs_meta :: "(string \<times> string option) list"
  obs_text :: "string option"

record browser =
  playwright_available :: bool
  session_error :: "string option"
  render :: "string \<Rightarrow> string + page_obs"
  set_order :: "string fset \<Rightarrow> string list"

definition list_of_set :: "browser \<Rightarrow> string fset \<Rightarrow> string list" where
  \<comment> \<open>\<open>list(S)\<close> for a set \<open>S\<close>: its elements, each once, in the order the runtime gives.
      An order that is not an enumeration of \<open>S\<close> is replaced by the lexicographic one, so
      that every environment describes a run.\<close>
  "list_of_set env S =
     (let l = set_order env S
      in if distinct l \<and> fset_of_list l = S then l else sorted_list_of_fset S)"

record CrawlResult =
  url :: string
  title :: string
  status_code :: int
  links :: "string list"
  resources :: "(string \<times> string list) list"
  meta_data :: "(string \<times> string option) list"
  text_content :: string
  error :: "string option"

text \<open>
  The summary dictionary of the response. \<open>crawl_time\<close> is wall-clock time and is left
  out. \<open>summary_errors\<close> is the key \<open>errors\<close>.
\<close>

record SiteCrawlSummary =
  total_pages :: nat
  total_links :: nat
  total_resources :: nat
  unique_domains :: "string list"
  summary_errors :: "string list"

text \<open>The dictionary a tool returns: a key that is absent is \<open>None\<close>.\<close>

record crawl_response =
  resp_error :: "string option"
  resp_summary :: "SiteCrawlSummary option"
  resp_pages :: "CrawlResult list option"

text \<open>The local variables of \<open>_crawl_with_playwright\<close> that the loop changes.\<close>

record crawl_state =
  visited :: "string fset"
  to_visit :: "string list"
  crawled_pages :: "CrawlResult list"
  errors :: "string list"
  all_domains :: "string fset"

fun collect_links :: "urllib \<Rightarrow> string \<Rightarrow> string option list \<Rightarrow> string list \<Rightarrow> string list" where
  \<comment> \<open>the \<open>for\<close> loop of \<open>_extract_links_playwright\<close>; an exception of \<open>_normalize_url\<close>
      leaves the loop with the links collected so far\<close>
  "collect_links lib base_url [] acc = acc"
| "collect_links lib base_url (h # hs) acc =
     (case h of
        None \<Rightarrow> collect_links lib base_url hs acc
      | Some href \<Rightarrow>
          if href = [] then collect_links lib base_url hs acc
          else (case normalize_url lib href base_url of
                  Inl e \<Rightarrow> acc
                | Inr normalized \<Rightarrow>
                    if is_valid_url lib normalized
                    then collect_links lib base_url hs (acc @ [normalized])
                    else collect_links lib base_url hs acc))"

definition extract_links :: "urllib \<Rightarrow> browser \<Rightarrow> page_obs \<Rightarrow> string \<Rightarrow> string list" where
  \<comment> \<open>\<open>_extract_links_playwright\<close>: \<open>list(set(links))\<close>\<close>
  "extract_links lib env obs base_url =
     list_of_set env (fset_of_list (collect_links lib base_url (obs_hrefs obs) []))"

fun enqueue_links :: "urllib \<Rightarrow> string \<Rightarrow> string fset \<Rightarrow> int \<Rightarrow> string list \<Rightarrow> string list \<Rightarrow> string list" where
  \<comment> \<open>the loop "Add new URLs to crawl queue"\<close>
  "enqueue_links lib base_domain vis max_pages [] tv = tv"
| "enqueue_links lib base_domain vis max_pages (l # ls) tv =
     enqueue_links lib base_domain vis max_pages ls
       (if should_crawl_url lib l base_domain vis max_pages \<and> l \<notin> set tv then tv @ [l] else tv)"

definition error_page :: "string \<Rightarrow> string \<Rightarrow> crawl_state \<Rightarrow> crawl_state" where
  \<comment> \<open>the \<open>except Exception as e\<close> branch of the loop body, \<open>msg\<close> being \<open>str(e)\<close>\<close>
  "error_page current_url msg s =
     s\<lparr>errors := errors s @ [''Error crawling '' @ current_url @ '': '' @ msg],
       crawled_pages := crawled_pages s @
         [\<lparr>url = current_url, title = ''Error'', status_code = 0, links = [],
           resources = [], meta_data = [], text_content = [], error = Some msg\<rparr>]\<rparr>"

definition page_result :: "string \<Rightarrow> page_obs \<Rightarrow> string list \<Rightarrow> CrawlResult" where
  "page_result current_url obs page_links =
     \<lparr>url = current_url,
      title = (if obs_title obs = [] then ''No Title'' else obs_title obs),
      status_code = (case obs_status obs of None \<Rightarrow> 0 | Some c \<Rightarrow> c),
      links = page_links,
      resources = obs_resources obs,
      meta_data = obs_meta obs,
      text_content = (case obs_text obs of None \<Rightarrow> [] | Some t \<Rightarrow> take 1000 t),
      error = None\<rparr>"

definition crawl_page :: "urllib \<Rightarrow> browser \<Rightarrow> string \<Rightarrow> int \<Rightarrow> string \<Rightarrow> crawl_state \<Rightarrow> crawl_state" where
  \<comment> \<open>the \<open>try\<close> statement of the loop body, for a \<open>current_url\<close> already marked visited\<close>
  "crawl_page lib env start max_pages current_url s =
     (case render env current_url of
        Inl e \<Rightarrow> error_page current_url e s
      | Inr obs \<Rightarrow>
         (let page_links = extract_links lib env obs current_url
          in case urlparse lib current_url of
               Inl e \<Rightarrow> error_page current_url e s
             | Inr parsed \<Rightarrow>
                (let s1 = s\<lparr>all_domains := finsert (netloc parsed) (all_domains s),
                            crawled_pages := crawled_pages s @
                              [page_result current_url obs page_links]\<rparr>
                 in case urlparse lib start of
                      Inl e \<Rightarrow> error_page current_url e s1
                    | Inr ps \<Rightarrow>
                        s1\<lparr>to_visit := enqueue_links lib (scheme ps @ ''://'' @ netloc ps)
                              (visited s1) max_pages page_links (to_visit s1)\<rparr>)))"

definition crawl_iteration :: "urllib \<Rightarrow> browser \<Rightarrow> string \<Rightarrow> int \<Rightarrow> crawl_state \<Rightarrow> crawl_state" where
  \<comment> \<open>one pass through the body of the \<open>while\<close> loop; the loop condition rules out the
      empty queue, on which \<open>pop(0)\<close> would raise\<close>
  "crawl_iteration lib env start max_pages s =
     (case to_visit s of
        [] \<Rightarrow> s
      | current_url # rest \<Rightarrow>
          if current_url |\<in>| visited s then s\<lparr>to_visit := rest\<rparr>
          else crawl_page lib env start max_pages current_url
                 (s\<lparr>to_visit := rest, visited := finsert current_url (visited s)\<rparr>))"

definition loop_condition :: "int \<Rightarrow> crawl_state \<Rightarrow> bool" where
  "loop_condition max_pages s = (to_visit s \<noteq> [] \<and> int (fcard (visited s)) < max_pages)"

definition initial_state :: "string \<Rightarrow> crawl_state" where
  "initial_state start =
     \<lparr>visited = {||}, to_visit = [start], crawled_pages = [], errors = [], all_domains = {||}\<rparr>"


function crawl_loop :: "urllib \<Rightarrow> browser \<Rightarrow> string \<Rightarrow> int \<Rightarrow> crawl_state \<Rightarrow> crawl_state" where
  \<comment> \<open>\<open>while to_visit and len(visited) < max_pages\<close>\<close>
  "crawl_loop lib env start max_pages s =
     (if loop_condition max_pages s
      then crawl_loop lib env start max_pages (crawl_iteration lib env start max_pages s)
      else s)"
  by pat_completeness auto
termination
proof (relation "measures [\<lambda>(lib, env, start, max_pages, s). nat (max_pages - int (fcard (visited s))),
                           \<lambda>(lib, env, start, max_pages, s). length (to_visit s)]", goal_cases)
  case 1
  show ?case by simp
next
  case (2 lib env start max_pages s)
  then obtain c rest where tv: "to_visit s = c # rest"
    and lt: "int (fcard (visited s)) < max_pages"
    by (cases "to_visit s") (auto simp: loop_condition_def)
  show ?case
  proof (cases "c |\<in>| visited s")
    case True
    then show ?thesis using tv by (simp add: crawl_iteration_def)
  next
    case False
    have "visited (crawl_page lib env start max_pages c st) = visited st" for st
      by (auto simp: crawl_page_def error_page_def Let_def split: sum.splits)
    then have "visited (crawl_iteration lib env start max_pages s) = finsert c (visited s)"
      using tv False by (simp add: crawl_iteration_def)
    then show ?thesis using False lt by (simp add: fcard_finsert_disjoint)
  qed
qed

text \<open>The state after at most \<open>n\<close> passes through the loop body.\<close>

fun crawl_steps :: "nat \<Rightarrow> urllib \<Rightarrow> browser \<Rightarrow> string \<Rightarrow> int \<Rightarrow> crawl_state \<Rightarrow> crawl_state" where
  "crawl_steps 0 lib env start max_pages s = s"
| "crawl_steps (Suc n) lib env start max_pages s =
     (if loop_condition max_pages s
      then crawl_steps n lib env start max_pages (crawl_iteration lib env start max_pages s)
      else s)"

definition summarize :: "browser \<Rightarrow> crawl_state \<Rightarrow> crawl_response" where
  \<comment> \<open>"Calculate summary statistics" and the dictionary that is returned\<close>
  "summarize env s =
     \<lparr>resp_error = None,
      resp_summary = Some
        \<lparr>total_pages = length (crawled_pages s),
         total_links = sum_list (map (\<lambda>p. length (links p)) (crawled_pages s)),
         total_resources =
           sum_list (map (\<lambda>p. sum_list (map (\<lambda>kv. length (snd kv)) (resources p)))
                      (crawled_pages s)),
         unique_domains = list_of_set env (all_domains s),
         summary_errors = errors s\<rparr>,
      resp_pages = Some (crawled_pages s)\<rparr>"

definition crawl_with_playwright :: "urllib \<Rightarrow> browser \<Rightarrow> string \<Rightarrow> int \<Rightarrow> string + crawl_response" where
  \<comment> \<open>\<open>_crawl_with_playwright\<close>; \<open>Inl\<close> when the session raises outside the per-page \<open>try\<close>\<close>
  "crawl_with_playwright lib env start max_pages =
     (case session_error env of
        Some e \<Rightarrow> Inl e
      | None \<Rightarrow> Inr (summarize env (crawl_loop lib env start max_pages (initial_state start))))"

definition crawl_site :: "urllib \<Rightarrow> browser \<Rightarrow> string \<Rightarrow> int \<Rightarrow> crawl_response" where
  "crawl_site lib env u max_pages0 =
     (if \<not> is_valid_url lib u
      then \<lparr>resp_error = Some ''Invalid URL provided. URL must include http:// or https://'',
            resp_summary = None, resp_pages = None\<rparr>
      else (let max_pages = (if max_pages0 > 100 then 100 else max_pages0)
            in if \<not> playwright_available env
               then \<lparr>resp_error = Some (''Playwright is not installed. Install with: '' @
                                        ''pip install playwright && playwright install''),
                     resp_summary = None, resp_pages = None\<rparr>
               else (case crawl_with_playwright lib env u max_pages of
                       Inr r \<Rightarrow> r
                     | Inl e \<Rightarrow>
                         \<lparr>resp_error = Some (''Crawl failed: '' @ e),
                          resp_summary = Some \<lparr>total_pages = 0, total_links = 0,
                            total_resources = 0, unique_domains = [], summary_errors = [e]\<rparr>,
                          resp_pages = Some []\<rparr>)))"


declare crawl_loop.simps [simp del]

subsection \<open>A fixture site\<close>

text \<open>
  Three pages on one host: the start page links to \<open>/b\<close> and \<open>/c\<close>; \<open>/b\<close> links back to
  the start page and to a page on another host; \<open>/c\<close> times out. Sets are iterated in
  lexicographic order.
\<close>

definition fixture_page :: "string \<Rightarrow> string option list \<Rightarrow> page_obs" where
  "fixture_page t hs =
     \<lparr>obs_title = t, obs_status = Some 200, obs_hrefs = hs, obs_resources = [],
      obs_meta = [], obs_text = Some t\<rparr>"

definition fixture_site :: "string \<Rightarrow> string + page_obs" where
  "fixture_site u =
     (if u = ''https://example.com/'' then Inr (fixture_page ''A'' [Some ''/b'', Some ''/c''])
      else if u = ''https://example.com/b''
      then Inr (fixture_page ''B'' [Some ''/'', Some ''https://other.org/d''])
      else Inl ''Timeout 30000ms exceeded.'')"

definition fixture_browser :: browser where
  "fixture_browser =
     \<lparr>playwright_available = True, session_error = None, render = fixture_site,
      set_order = sorted_list_of_fset\<rparr>"


section \<open>Invariants of the crawl loop\<close>

definition budget_inv :: "int \<Rightarrow> crawl_state \<Rightarrow> bool" where
  "budget_inv max_pages s = (int (fcard (visited s)) \<le> max 0 max_pages)"

definition pages_inv :: "crawl_state \<Rightarrow> bool" where
  "pages_inv s = (distinct (map url (crawled_pages s))
                  \<and> set (map url (crawled_pages s)) = fset (visited s))"


section \<open>Facts about the URL library\<close>


lemma py_urlparse_with_scheme_netloc:
  assumes "py_urlparse_with hc u d = Inr r"
  shows "\<exists>r0. urlsplit hc u d = Inr r0 \<and> scheme r0 = scheme r \<and> netloc r0 = netloc r"
  using assms
  by (auto simp: py_urlparse_with_def Let_def split: sum.splits if_splits prod.splits)

lemma urlsplit_netloc_clean:
  assumes "urlsplit hc u d = Inr r" and "netloc r \<noteq> []"
  shows "netloc_error hc (netloc r) = None
         \<and> (\<forall>c\<in>set (netloc r). \<not> netloc_delim c \<and> \<not> unsafe_url_byte c)"
proof -
  define u1 where "u1 = filter (\<lambda>c. \<not> unsafe_url_byte c) (lstrip u)"
  define s1 where "s1 = filter (\<lambda>c. \<not> unsafe_url_byte c) (strip d)"
  obtain sch u2 where su: "split_scheme s1 u1 = (sch, u2)" by (cases "split_scheme s1 u1")
  have sub: "set u2 \<subseteq> set u1"
    using su by (auto simp: split_scheme_def Let_def split: if_splits dest: in_set_dropD)
  have two: "take 2 u2 = ''//''"
    using assms su unfolding urlsplit_def u1_def [symmetric] s1_def [symmetric]
    by (auto simp: Let_def split: if_splits option.splits prod.splits)
  have nl: "netloc r = takeWhile (\<lambda>c. \<not> netloc_delim c) (drop 2 u2)"
    and ne: "netloc_error hc (netloc r) = None"
    using assms su two unfolding urlsplit_def u1_def [symmetric] s1_def [symmetric]
    by (auto simp: Let_def splitnetloc_def split: if_splits option.splits prod.splits)
  have "\<forall>c\<in>set (netloc r). \<not> netloc_delim c"
    unfolding nl by (auto dest: set_takeWhileD)
  moreover have "\<forall>c\<in>set (netloc r). \<not> unsafe_url_byte c"
  proof
    fix c assume "c \<in> set (netloc r)"
    then have "c \<in> set u2" unfolding nl by (auto dest: set_takeWhileD in_set_dropD)
    then have "c \<in> set u1" using sub by blast
    then show "\<not> unsafe_url_byte c" by (simp add: u1_def)
  qed
  ultimately show ?thesis using ne by blast
qed

lemma urlsplit_rebuilt:
  assumes "netloc_error hc n = None"
    and "\<forall>c\<in>set n. \<not> netloc_delim c \<and> \<not> unsafe_url_byte c"
    and "sch = ''http'' \<or> sch = ''https''"
  shows "urlsplit hc (sch @ ''://'' @ n) [] =
           Inr \<lparr>scheme = sch, netloc = n, path = [], params = [], query = [], fragment = []\<rparr>"
proof -
  have f: "filter (\<lambda>c. c \<noteq> CHR 0x09 \<and> c \<noteq> CHR 0x0D \<and> c \<noteq> CHR 0x0A) n = n"
    using assms(2) by (simp add: filter_id_conv unsafe_url_byte_def)
  have t: "takeWhile (\<lambda>c. \<not> netloc_delim c) n = n" "dropWhile (\<lambda>c. \<not> netloc_delim c) n = []"
    using assms(2) by (simp_all add: takeWhile_eq_all_conv)
  from assms(3) show ?thesis
  proof
    assume s: "sch = ''http''"
    show ?thesis unfolding s
      by (simp add: urlsplit_def lstrip_def strip_def c0_control_or_space_def unsafe_url_byte_def
          split_scheme_def isascii_def ascii_lowercase_def ascii_uppercase_def scheme_chars_def
          lower_def lower_char_def splitnetloc_def f t assms(1))
  next
    assume s: "sch = ''https''"
    show ?thesis unfolding s
      by (simp add: urlsplit_def lstrip_def strip_def c0_control_or_space_def unsafe_url_byte_def
          split_scheme_def isascii_def ascii_lowercase_def ascii_uppercase_def scheme_chars_def
          lower_def lower_char_def splitnetloc_def f t assms(1))
  qed
qed

lemma py_reparse:
  assumes "is_valid_url (py_urllib hc) u" and "urlparse (py_urllib hc) u = Inr ps"
  shows "\<exists>pb. urlparse (py_urllib hc) (scheme ps @ ''://'' @ netloc ps) = Inr pb
              \<and> netloc pb = netloc ps"
proof -
  have p: "py_urlparse_with hc u [] = Inr ps" using assms(2) by (simp add: py_urllib_def)
  have v: "scheme ps = ''http'' \<or> scheme ps = ''https''" "netloc ps \<noteq> []"
    using assms by (auto simp: is_valid_url_def)
  obtain r0 where r0: "urlsplit hc u [] = Inr r0" "scheme r0 = scheme ps" "netloc r0 = netloc ps"
    using py_urlparse_with_scheme_netloc [OF p] by blast
  have clean: "netloc_error hc (netloc ps) = None"
     "\<forall>c\<in>set (netloc ps). \<not> netloc_delim c \<and> \<not> unsafe_url_byte c"
    using urlsplit_netloc_clean [OF r0(1)] v(2) r0(3) by auto
  have "urlsplit hc (scheme ps @ ''://'' @ netloc ps) [] =
          Inr \<lparr>scheme = scheme ps, netloc = netloc ps, path = [], params = [], query = [],
               fragment = []\<rparr>"
    using urlsplit_rebuilt [OF clean v(1)] .
  then show ?thesis by (simp add: py_urllib_def py_urlparse_with_def)
qed

section \<open>Facts about the crawl loop\<close>

lemma list_of_set_enumerates: "distinct (list_of_set env S) \<and> set (list_of_set env S) = fset S"
proof (cases "distinct (set_order env S) \<and> fset_of_list (set_order env S) = S")
  case True
  then have "list_of_set env S = set_order env S" by (simp add: list_of_set_def)
  moreover have "set (set_order env S) = fset S" using True by (metis fset_of_list.rep_eq)
  ultimately show ?thesis using True by simp
next
  case False
  then have "list_of_set env S = sorted_list_of_fset S"
    unfolding list_of_set_def Let_def by (simp only: if_False)
  then show ?thesis by (simp add: sorted_list_of_fset.rep_eq)
qed


lemma crawl_steps_invariant:
  assumes "P s"
    and "\<And>t. P t \<Longrightarrow> loop_condition max_pages t \<Longrightarrow> P (crawl_iteration lib env start max_pages t)"
  shows "P (crawl_steps n lib env start max_pages s)"
  using assms(1)
proof (induction n arbitrary: s)
  case 0
  then show ?case by simp
next
  case (Suc n)
  then show ?case using assms(2) by simp
qed

lemma crawl_loop_steps:
  "\<exists>n. crawl_loop lib env start max_pages s = crawl_steps n lib env start max_pages s
       \<and> \<not> loop_condition max_pages (crawl_steps n lib env start max_pages s)"
proof (induction lib env start max_pages s rule: crawl_loop.induct)
  case (1 lib env start max_pages s)
  show ?case
  proof (cases "loop_condition max_pages s")
    case True
    with 1 obtain n where
      n: "crawl_loop lib env start max_pages (crawl_iteration lib env start max_pages s)
            = crawl_steps n lib env start max_pages (crawl_iteration lib env start max_pages s)"
         "\<not> loop_condition max_pages
              (crawl_steps n lib env start max_pages (crawl_iteration lib env start max_pages s))"
      by blast
    have "crawl_loop lib env start max_pages s = crawl_steps (Suc n) lib env start max_pages s"
      using True n(1) by (simp add: crawl_loop.simps [of lib env start max_pages s])
    moreover have "\<not> loop_condition max_pages (crawl_steps (Suc n) lib env start max_pages s)"
      using True n(2) by simp
    ultimately show ?thesis by blast
  next
    case False
    then have "crawl_loop lib env start max_pages s = crawl_steps 0 lib env start max_pages s"
      by (simp add: crawl_loop.simps [of lib env start max_pages s])
    then show ?thesis using False by (metis crawl_steps.simps(1))
  qed
qed

lemma crawl_loop_invariant:
  assumes "P s"
    and "\<And>t. P t \<Longrightarrow> loop_condition max_pages t \<Longrightarrow> P (crawl_iteration lib env start max_pages t)"
  shows "P (crawl_loop lib env start max_pages s)"
proof -
  obtain n where "crawl_loop lib env start max_pages s = crawl_steps n lib env start max_pages s"
    using crawl_loop_steps by blast
  then show ?thesis using crawl_steps_invariant [of P s max_pages lib env start n] assms by simp
qed

lemma crawl_loop_exit: "\<not> loop_condition max_pages (crawl_loop lib env start max_pages s)"
  using crawl_loop_steps [of lib env start max_pages s] by auto

lemma visited_crawl_page [simp]:
  "visited (crawl_page lib env start max_pages c s) = visited s"
  by (auto simp: crawl_page_def error_page_def Let_def split: sum.splits)

text \<open>With a start URL that parses, the \<open>try\<close> statement appends exactly one result.\<close>

lemma crawl_page_appends:
  assumes "urlparse lib start = Inr ps"
  shows "\<exists>p. crawled_pages (crawl_page lib env start max_pages c s) = crawled_pages s @ [p]
           \<and> url p = c"
  using assms
  by (auto simp: crawl_page_def error_page_def page_result_def Let_def split: sum.splits)

lemma budget_inv_iteration:
  assumes "loop_condition max_pages s"
  shows "budget_inv max_pages (crawl_iteration lib env start max_pages s)"
proof -
  from assms obtain c rest where tv: "to_visit s = c # rest"
    and lt: "int (fcard (visited s)) < max_pages"
    by (cases "to_visit s") (auto simp: loop_condition_def)
  show ?thesis
  proof (cases "c |\<in>| visited s")
    case True
    then show ?thesis using tv lt by (simp add: crawl_iteration_def budget_inv_def)
  next
    case False
    then show ?thesis using tv lt
      by (simp add: crawl_iteration_def budget_inv_def fcard_finsert_disjoint)
  qed
qed

lemma pages_inv_iteration:
  assumes "urlparse lib start = Inr ps" and "pages_inv s"
  shows "pages_inv (crawl_iteration lib env start max_pages s)"
proof (cases "to_visit s")
  case Nil
  then show ?thesis using assms(2) by (simp add: crawl_iteration_def)
next
  case (Cons c rest)
  show ?thesis
  proof (cases "c |\<in>| visited s")
    case True
    then show ?thesis using Cons assms(2) by (simp add: crawl_iteration_def pages_inv_def)
  next
    case False
    let ?s1 = "s\<lparr>to_visit := rest, visited := finsert c (visited s)\<rparr>"
    obtain p where p: "crawled_pages (crawl_page lib env start max_pages c ?s1)
                        = crawled_pages ?s1 @ [p]" "url p = c"
      using crawl_page_appends [OF assms(1)] by blast
    have "crawl_iteration lib env start max_pages s = crawl_page lib env start max_pages c ?s1"
      using Cons False by (simp add: crawl_iteration_def)
    then show ?thesis using p False assms(2) by (auto simp: pages_inv_def)
  qed
qed

lemma pages_inv_length: "pages_inv s \<Longrightarrow> length (crawled_pages s) = fcard (visited s)"
  by (metis distinct_card fcard.rep_eq length_map pages_inv_def)


section \<open>Claims about \<open>crawl_site\<close>\<close>


text \<open>
  C5. A URL that \<open>_is_valid_url\<close> does not accept (the parse raises, the scheme or the
  network location is empty, or the scheme is neither \<open>http\<close> nor \<open>https\<close>) makes
  \<open>crawl_site\<close> return a dictionary that holds the error text and nothing else: no summary
  and no page list. The result is the same for every browser environment and every
  \<open>max_pages\<close>, so nothing is fetched.
\<close>

theorem crawl_site_rejects_invalid_url:
  assumes "case urlparse lib u of
             Inl e \<Rightarrow> True
           | Inr p \<Rightarrow> scheme p = [] \<or> netloc p = [] \<or> (scheme p \<noteq> ''http'' \<and> scheme p \<noteq> ''https'')"
  shows "crawl_site lib env u max_pages =
           \<lparr>resp_error = Some ''Invalid URL provided. URL must include http:// or https://'',
            resp_summary = None, resp_pages = None\<rparr>"
proof -
  have "\<not> is_valid_url lib u"
    using assms by (auto simp: is_valid_url_def split: sum.splits)
  then show ?thesis by (simp add: crawl_site_def)
qed

theorem crawl_site_rejects_invalid_url_witness:
  "(case urlparse (py_urllib no_host_errors) ''example.com/about'' of
      Inl e \<Rightarrow> True
    | Inr p \<Rightarrow> scheme p = [] \<or> netloc p = [] \<or> (scheme p \<noteq> ''http'' \<and> scheme p \<noteq> ''https''))
   \<and> crawl_site (py_urllib no_host_errors) fixture_browser ''example.com/about'' 10 =
       \<lparr>resp_error = Some ''Invalid URL provided. URL must include http:// or https://'',
        resp_summary = None, resp_pages = None\<rparr>"
proof -
  have h: "case urlparse (py_urllib no_host_errors) ''example.com/about'' of
             Inl e \<Rightarrow> True
           | Inr p \<Rightarrow> scheme p = [] \<or> netloc p = [] \<or> (scheme p \<noteq> ''http'' \<and> scheme p \<noteq> ''https'')"
    by code_simp
  show ?thesis using h crawl_site_rejects_invalid_url [OF h] by blast
qed

text \<open>
  C10. With a valid start URL and \<open>max_pages \<le> 0\<close>, in an environment where Playwright is
  installed and the browser session raises nothing, \<open>crawl_site\<close> returns a response with
  no top-level error, an empty page list and \<open>total_pages = 0\<close>: the budget is only clamped
  from above and the loop condition is false from the start.
\<close>

theorem crawl_site_nonpositive_budget:
  assumes "is_valid_url lib u" and "max_pages \<le> 0"
    and "playwright_available env" and "session_error env = None"
  shows "crawl_site lib env u max_pages =
           \<lparr>resp_error = None,
            resp_summary = Some \<lparr>total_pages = 0, total_links = 0, total_resources = 0,
                                 unique_domains = [], summary_errors = []\<rparr>,
            resp_pages = Some []\<rparr>"
proof -
  have "\<not> loop_condition max_pages (initial_state u)"
    using assms(2) by (simp add: loop_condition_def initial_state_def)
  then have "crawl_loop lib env u max_pages (initial_state u) = initial_state u"
    by (simp add: crawl_loop.simps [of lib env u max_pages "initial_state u"])
  moreover have "list_of_set env {||} = []"
    using list_of_set_enumerates [of env "{||}"] by simp
  moreover have "\<not> max_pages > 100" using assms(2) by simp
  ultimately show ?thesis
    using assms(1,3,4)
    by (simp add: crawl_site_def crawl_with_playwright_def summarize_def initial_state_def)
qed

theorem crawl_site_nonpositive_budget_witness:
  "is_valid_url (py_urllib no_host_errors) ''https://example.com/'' \<and> (-3::int) \<le> 0
   \<and> playwright_available fixture_browser \<and> session_error fixture_browser = None
   \<and> crawl_site (py_urllib no_host_errors) fixture_browser ''https://example.com/'' (-3) =
           \<lparr>resp_error = None,
            resp_summary = Some \<lparr>total_pages = 0, total_links = 0, total_resources = 0,
                                 unique_domains = [], summary_errors = []\<rparr>,
            resp_pages = Some []\<rparr>"
proof -
  have v: "is_valid_url (py_urllib no_host_errors) ''https://example.com/''" by code_simp
  have b: "(-3::int) \<le> 0" by simp
  have p: "playwright_available fixture_browser" by (simp add: fixture_browser_def)
  have e: "session_error fixture_browser = None" by (simp add: fixture_browser_def)
  show ?thesis using v b p e crawl_site_nonpositive_budget [OF v b p e] by blast
qed

lemma valid_start_parses: "is_valid_url lib u \<Longrightarrow> \<exists>ps. urlparse lib u = Inr ps"
  by (cases "urlparse lib u") (auto simp: is_valid_url_def)

lemma budget_inv_initial: "budget_inv max_pages (initial_state u)"
  by (simp add: budget_inv_def initial_state_def fcard_fempty)

lemma pages_inv_initial: "pages_inv (initial_state u)"
  by (simp add: pages_inv_def initial_state_def)

text \<open>
  C1, as the code has it. For a valid start URL the number of visited URLs is at most
  \<open>max 0 max_pages\<close> after any number of passes through the loop; when the loop has ended,
  the URLs of the results are, without repetition, exactly the visited URLs, so there are as
  many results as visited URLs and at most \<open>max 0 max_pages\<close> of them; and whenever the
  response of \<open>crawl_site\<close> has a page list, its length is at most \<open>max 0 (min max_pages 100)\<close>
  and equals \<open>total_pages\<close> of the summary. (The bound \<open>max_pages\<close> itself fails for a
  negative \<open>max_pages\<close>, where nothing is visited.)
\<close>

theorem crawl_budget_and_results:
  assumes "is_valid_url lib u"
  shows "(\<forall>n. int (fcard (visited (crawl_steps n lib env u max_pages (initial_state u))))
              \<le> max 0 max_pages)
       \<and> (let s = crawl_loop lib env u max_pages (initial_state u)
          in distinct (map url (crawled_pages s))
             \<and> set (map url (crawled_pages s)) = fset (visited s)
             \<and> length (crawled_pages s) = fcard (visited s)
             \<and> int (fcard (visited s)) \<le> max 0 max_pages)
       \<and> (case resp_pages (crawl_site lib env u max_pages) of
            None \<Rightarrow> True
          | Some ps \<Rightarrow>
              int (length ps) \<le> max 0 (min max_pages 100)
              \<and> (\<exists>sm. resp_summary (crawl_site lib env u max_pages) = Some sm
                       \<and> total_pages sm = length ps))"
proof -
  obtain ps where ps: "urlparse lib u = Inr ps" using valid_start_parses [OF assms] by blast
  have steps: "budget_inv mp (crawl_steps n lib env u mp (initial_state u))" for n mp
    by (rule crawl_steps_invariant [where P = "budget_inv mp"])
       (auto intro: budget_inv_initial budget_inv_iteration)
  have final: "budget_inv mp (crawl_loop lib env u mp (initial_state u))
             \<and> pages_inv (crawl_loop lib env u mp (initial_state u))" for mp
    by (rule crawl_loop_invariant [where P = "\<lambda>s. budget_inv mp s \<and> pages_inv s"])
       (auto intro: budget_inv_initial budget_inv_iteration pages_inv_initial
          pages_inv_iteration [OF ps])
  have a: "\<forall>n. int (fcard (visited (crawl_steps n lib env u max_pages (initial_state u))))
              \<le> max 0 max_pages"
    using steps [of max_pages] by (simp add: budget_inv_def)
  have b: "let s = crawl_loop lib env u max_pages (initial_state u)
          in distinct (map url (crawled_pages s))
             \<and> set (map url (crawled_pages s)) = fset (visited s)
             \<and> length (crawled_pages s) = fcard (visited s)
             \<and> int (fcard (visited s)) \<le> max 0 max_pages"
    using final [of max_pages] pages_inv_length [of "crawl_loop lib env u max_pages (initial_state u)"]
    by (simp add: Let_def budget_inv_def pages_inv_def)
  define mp where "mp = (if max_pages > 100 then 100 else max_pages)"
  have mp: "mp = min max_pages 100" by (simp add: mp_def)
  have len: "int (length (crawled_pages (crawl_loop lib env u mp (initial_state u)))) \<le> max 0 mp"
    using final [of mp] pages_inv_length [of "crawl_loop lib env u mp (initial_state u)"]
    by (simp add: budget_inv_def)
  have c: "case resp_pages (crawl_site lib env u max_pages) of
            None \<Rightarrow> True
          | Some ps \<Rightarrow>
              int (length ps) \<le> max 0 (min max_pages 100)
              \<and> (\<exists>sm. resp_summary (crawl_site lib env u max_pages) = Some sm
                       \<and> total_pages sm = length ps)"
    using assms len unfolding mp [symmetric]
    by (auto simp: crawl_site_def crawl_with_playwright_def summarize_def Let_def mp_def
             split: option.splits sum.splits)
  show ?thesis using a b c by blast
qed


theorem crawl_budget_and_results_witness:
  "is_valid_url (py_urllib no_host_errors) ''https://example.com/''
   \<and> map_option (map url)
         (resp_pages (crawl_site (py_urllib no_host_errors) fixture_browser ''https://example.com/'' 2))
       = Some [''https://example.com/'', ''https://example.com/b'']
   \<and> (\<forall>n. int (fcard (visited (crawl_steps n (py_urllib no_host_errors) fixture_browser
               ''https://example.com/'' 2 (initial_state ''https://example.com/'')))) \<le> max 0 2)
   \<and> (let s = crawl_loop (py_urllib no_host_errors) fixture_browser ''https://example.com/'' 2
                 (initial_state ''https://example.com/'')
       in distinct (map url (crawled_pages s))
          \<and> set (map url (crawled_pages s)) = fset (visited s)
          \<and> length (crawled_pages s) = fcard (visited s)
          \<and> int (fcard (visited s)) \<le> max 0 2)"
proof -
  have v: "is_valid_url (py_urllib no_host_errors) ''https://example.com/''" by code_simp
  have p: "map_option (map url)
         (resp_pages (crawl_site (py_urllib no_host_errors) fixture_browser ''https://example.com/'' 2))
       = Some [''https://example.com/'', ''https://example.com/b'']"
    by code_simp
  show ?thesis
    using v p crawl_budget_and_results [OF v, of fixture_browser 2] by blast
qed

theorem crawl_budget_counterexample:
  "is_valid_url (py_urllib no_host_errors) ''https://example.com/''
   \<and> \<not> int (fcard (visited (crawl_loop (py_urllib no_host_errors) fixture_browser
               ''https://example.com/'' (- 1) (initial_state ''https://example.com/'')))) \<le> - 1
   \<and> resp_pages (crawl_site (py_urllib no_host_errors) fixture_browser ''https://example.com/'' (- 1))
       = Some []"
  by code_simp

definition is_error_result :: "CrawlResult \<Rightarrow> bool" where
  "is_error_result p =
     (error p \<noteq> None \<and> title p = ''Error'' \<and> status_code p = 0 \<and> links p = []
      \<and> resources p = [] \<and> meta_data p = [] \<and> text_content p = [])"

definition is_success_result :: "urllib \<Rightarrow> browser \<Rightarrow> CrawlResult \<Rightarrow> bool" where
  "is_success_result lib env p =
     (error p = None \<and>
      (case render env (url p) of
         Inl e \<Rightarrow> False
       | Inr obs \<Rightarrow> p = page_result (url p) obs (extract_links lib env obs (url p))))"

definition results_inv :: "urllib \<Rightarrow> browser \<Rightarrow> crawl_state \<Rightarrow> bool" where
  "results_inv lib env s =
     (\<forall>p\<in>set (crawled_pages s). is_success_result lib env p \<or> is_error_result p)"

lemma results_inv_crawl_page:
  assumes "results_inv lib env s"
  shows "results_inv lib env (crawl_page lib env start max_pages c s)"
  using assms
  by (auto simp: results_inv_def crawl_page_def error_page_def Let_def is_error_result_def
        is_success_result_def page_result_def split: sum.splits)

lemma results_inv_iteration:
  assumes "results_inv lib env s"
  shows "results_inv lib env (crawl_iteration lib env start max_pages s)"
proof (cases "to_visit s")
  case Nil
  then show ?thesis using assms by (simp add: crawl_iteration_def)
next
  case (Cons c rest)
  have "results_inv lib env (s\<lparr>to_visit := rest\<rparr>)"
       "results_inv lib env (s\<lparr>to_visit := rest, visited := finsert c (visited s)\<rparr>)"
    using assms by (simp_all add: results_inv_def)
  then show ?thesis using Cons by (simp add: crawl_iteration_def results_inv_crawl_page)
qed

text \<open>
  C4. When the render of the dequeued URL fails, the pass through the loop marks the URL
  visited (so it counts toward the budget), appends the error text to the error list and a
  result whose \<open>error\<close> is set and whose links, resources, metadata and text are empty, and
  leaves the rest of the queue in place; the loop goes on from that state. Every result of a
  finished crawl, and every page of a response of \<open>crawl_site\<close>, is either the result built
  from the data extracted from its page (no error) or an error result with nothing collected.
\<close>

theorem failed_page_is_recorded:
  assumes "to_visit s = c # rest" and "c |\<notin>| visited s" and "render env c = Inl e"
    and "int (fcard (visited s)) < max_pages"
  shows "(let s' = s\<lparr>to_visit := rest, visited := finsert c (visited s),
                     errors := errors s @ [''Error crawling '' @ c @ '': '' @ e],
                     crawled_pages := crawled_pages s @
                       [\<lparr>url = c, title = ''Error'', status_code = 0, links = [], resources = [],
                         meta_data = [], text_content = [], error = Some e\<rparr>]\<rparr>
          in crawl_iteration lib env start max_pages s = s'
             \<and> crawl_loop lib env start max_pages s = crawl_loop lib env start max_pages s')
       \<and> (\<forall>p\<in>set (crawled_pages (crawl_loop lib env start max_pages (initial_state start))).
             is_success_result lib env p \<or> is_error_result p)
       \<and> (case resp_pages (crawl_site lib env start max_pages) of
            None \<Rightarrow> True
          | Some ps \<Rightarrow> \<forall>p\<in>set ps. is_success_result lib env p \<or> is_error_result p)"
proof -
  have it: "crawl_iteration lib env start max_pages s =
          s\<lparr>to_visit := rest, visited := finsert c (visited s),
                     errors := errors s @ [''Error crawling '' @ c @ '': '' @ e],
                     crawled_pages := crawled_pages s @
                       [\<lparr>url = c, title = ''Error'', status_code = 0, links = [], resources = [],
                         meta_data = [], text_content = [], error = Some e\<rparr>]\<rparr>"
    using assms(1,2,3) by (simp add: crawl_iteration_def crawl_page_def error_page_def)
  have "loop_condition max_pages s" using assms(1,4) by (simp add: loop_condition_def)
  then have lp: "crawl_loop lib env start max_pages s
         = crawl_loop lib env start max_pages (crawl_iteration lib env start max_pages s)"
    by (simp add: crawl_loop.simps [of lib env start max_pages s])
  have fin: "results_inv lib env (crawl_loop lib env start mp (initial_state start))" for mp
  proof (rule crawl_loop_invariant [where P = "results_inv lib env"])
    show "results_inv lib env (initial_state start)"
      by (simp add: results_inv_def initial_state_def)
  qed (rule results_inv_iteration)
  have resp: "case resp_pages (crawl_site lib env start max_pages) of
            None \<Rightarrow> True
          | Some ps \<Rightarrow> \<forall>p\<in>set ps. is_success_result lib env p \<or> is_error_result p"
    using fin [of max_pages] fin [of 100]
    by (auto simp: crawl_site_def crawl_with_playwright_def summarize_def Let_def
          results_inv_def split: option.splits sum.splits)
  show ?thesis
    using it lp fin [of max_pages] resp unfolding Let_def results_inv_def by (metis (lifting))
qed


theorem failed_page_is_recorded_witness:
  "fixture_site ''https://example.com/c'' = Inl ''Timeout 30000ms exceeded.''
   \<and> map error (crawled_pages (crawl_loop (py_urllib no_host_errors) fixture_browser
          ''https://example.com/'' 10 (initial_state ''https://example.com/'')))
       = [None, None, Some ''Timeout 30000ms exceeded.'']
   \<and> (let s = \<lparr>visited = {||}, to_visit = [''https://example.com/c'', ''https://example.com/''],
                 crawled_pages = [], errors = [], all_domains = {||}\<rparr>;
           s' = s\<lparr>to_visit := [''https://example.com/''],
                  visited := finsert ''https://example.com/c'' (visited s),
                  errors := errors s @ [''Error crawling '' @ ''https://example.com/c'' @ '': '' @
                                        ''Timeout 30000ms exceeded.''],
                  crawled_pages := crawled_pages s @
                    [\<lparr>url = ''https://example.com/c'', title = ''Error'', status_code = 0,
                      links = [], resources = [], meta_data = [], text_content = [],
                      error = Some ''Timeout 30000ms exceeded.''\<rparr>]\<rparr>
       in crawl_iteration (py_urllib no_host_errors) fixture_browser ''https://example.com/'' 10 s = s'
          \<and> crawl_loop (py_urllib no_host_errors) fixture_browser ''https://example.com/'' 10 s
              = crawl_loop (py_urllib no_host_errors) fixture_browser ''https://example.com/'' 10 s')
   \<and> list_all (\<lambda>p. is_success_result (py_urllib no_host_errors) fixture_browser p
                    \<or> is_error_result p)
        (crawled_pages (crawl_loop (py_urllib no_host_errors) fixture_browser
          ''https://example.com/'' 10 (initial_state ''https://example.com/'')))"
proof -
  let ?s = "\<lparr>visited = {||}, to_visit = [''https://example.com/c'', ''https://example.com/''],
             crawled_pages = [], errors = [], all_domains = {||}\<rparr>"
  have r: "render fixture_browser ''https://example.com/c'' = Inl ''Timeout 30000ms exceeded.''"
    by (simp add: fixture_browser_def fixture_site_def)
  have r': "fixture_site ''https://example.com/c'' = Inl ''Timeout 30000ms exceeded.''"
    by (simp add: fixture_site_def)
  have q: "to_visit ?s = ''https://example.com/c'' # [''https://example.com/'']" by simp
  have n: "''https://example.com/c'' |\<notin>| visited ?s" by simp
  have b: "int (fcard (visited ?s)) < 10" by (simp add: fcard_fempty)
  have e: "map error (crawled_pages (crawl_loop (py_urllib no_host_errors) fixture_browser
          ''https://example.com/'' 10 (initial_state ''https://example.com/'')))
       = [None, None, Some ''Timeout 30000ms exceeded.'']"
    by code_simp
  show ?thesis
    using r' e failed_page_is_recorded [OF q n r b,
        of "py_urllib no_host_errors" "''https://example.com/''"]
    by (simp add: Let_def list_all_iff)
qed

lemma enqueue_links_appends:
  "\<exists>new. enqueue_links lib bd vis mp ls tv = tv @ new \<and> set new \<subseteq> set ls
         \<and> (\<forall>l\<in>set new. should_crawl_url lib l bd vis mp)"
proof (induction ls arbitrary: tv)
  case Nil
  then show ?case by simp
next
  case (Cons l ls)
  show ?case
  proof (cases "should_crawl_url lib l bd vis mp \<and> l \<notin> set tv")
    case True
    from Cons [of "tv @ [l]"] obtain new where
      "enqueue_links lib bd vis mp ls (tv @ [l]) = (tv @ [l]) @ new" "set new \<subseteq> set ls"
      "\<forall>l\<in>set new. should_crawl_url lib l bd vis mp" by blast
    then have "enqueue_links lib bd vis mp (l # ls) tv = tv @ (l # new)
               \<and> set (l # new) \<subseteq> set (l # ls)
               \<and> (\<forall>x\<in>set (l # new). should_crawl_url lib x bd vis mp)"
      using True by auto
    then show ?thesis by blast
  next
    case False
    from Cons [of tv] obtain new where
      "enqueue_links lib bd vis mp ls tv = tv @ new" "set new \<subseteq> set ls"
      "\<forall>l\<in>set new. should_crawl_url lib l bd vis mp" by blast
    then have "enqueue_links lib bd vis mp (l # ls) tv = tv @ new
               \<and> set new \<subseteq> set (l # ls)
               \<and> (\<forall>x\<in>set new. should_crawl_url lib x bd vis mp)"
      using False by auto
    then show ?thesis by blast
  qed
qed

text \<open>What one pass through the \<open>try\<close> statement does to the queue and to the results.\<close>

lemma crawl_page_shape:
  assumes "urlparse lib start = Inr ps"
  shows "\<exists>p new. crawled_pages (crawl_page lib env start max_pages c s) = crawled_pages s @ [p]
           \<and> url p = c
           \<and> to_visit (crawl_page lib env start max_pages c s) = to_visit s @ new
           \<and> set new \<subseteq> set (links p)
           \<and> (\<forall>l\<in>set new. should_crawl_url lib l (scheme ps @ ''://'' @ netloc ps)
                               (visited s) max_pages)"
proof (cases "render env c")
  case (Inl e)
  then show ?thesis by (simp add: crawl_page_def error_page_def)
next
  case (Inr obs)
  show ?thesis
  proof (cases "urlparse lib c")
    case (Inl e)
    then show ?thesis using Inr by (simp add: crawl_page_def error_page_def Let_def)
  next
    case pc: (Inr parsed)
    obtain new where new:
      "enqueue_links lib (scheme ps @ ''://'' @ netloc ps) (visited s) max_pages
         (extract_links lib env obs c) (to_visit s) = to_visit s @ new"
      "set new \<subseteq> set (extract_links lib env obs c)"
      "\<forall>l\<in>set new. should_crawl_url lib l (scheme ps @ ''://'' @ netloc ps) (visited s) max_pages"
      using enqueue_links_appends by blast
    show ?thesis
      using Inr pc assms new
      by (simp add: crawl_page_def Let_def page_result_def)
  qed
qed


lemma crawl_iteration_shape:
  assumes "urlparse lib start = Inr ps" and "to_visit s = c # rest"
  shows "(c |\<in>| visited s \<and> crawl_iteration lib env start max_pages s = s\<lparr>to_visit := rest\<rparr>)
       \<or> (c |\<notin>| visited s \<and>
          (\<exists>p new. crawled_pages (crawl_iteration lib env start max_pages s) = crawled_pages s @ [p]
             \<and> url p = c
             \<and> to_visit (crawl_iteration lib env start max_pages s) = rest @ new
             \<and> set new \<subseteq> set (links p)
             \<and> (\<forall>l\<in>set new. should_crawl_url lib l (scheme ps @ ''://'' @ netloc ps)
                                 (finsert c (visited s)) max_pages)
             \<and> visited (crawl_iteration lib env start max_pages s) = finsert c (visited s)))"
proof (cases "c |\<in>| visited s")
  case True
  then show ?thesis using assms(2) by (simp add: crawl_iteration_def)
next
  case False
  let ?s1 = "s\<lparr>to_visit := rest, visited := finsert c (visited s)\<rparr>"
  have "crawl_iteration lib env start max_pages s = crawl_page lib env start max_pages c ?s1"
    using assms(2) False by (simp add: crawl_iteration_def)
  then show ?thesis
    using crawl_page_shape [OF assms(1), of env max_pages c ?s1] False by auto
qed

definition linked_from :: "CrawlResult list \<Rightarrow> nat \<Rightarrow> string \<Rightarrow> bool" where
  \<comment> \<open>some result before position \<open>j\<close> has \<open>u\<close> among its links\<close>
  "linked_from rs j u = (\<exists>i\<in>{..<j}. u \<in> set (links (rs ! i)))"

definition bfs_inv :: "string \<Rightarrow> crawl_state \<Rightarrow> bool" where
  "bfs_inv start s =
     ((\<forall>u\<in>set (to_visit s). u = start
          \<or> linked_from (crawled_pages s) (length (crawled_pages s)) u)
      \<and> (\<forall>j\<in>{..<length (crawled_pages s)}. url (crawled_pages s ! j) = start
          \<or> linked_from (crawled_pages s) j (url (crawled_pages s ! j))))"

lemma linked_from_append:
  "j \<le> length rs \<Longrightarrow> linked_from (rs @ qs) j u = linked_from rs j u"
  by (auto simp: linked_from_def nth_append)

lemma linked_from_mono: "linked_from rs j u \<Longrightarrow> j \<le> k \<Longrightarrow> linked_from rs k u"
  by (auto simp: linked_from_def)

lemma linked_from_last:
  "u \<in> set (links p) \<Longrightarrow> linked_from (rs @ [p]) (Suc (length rs)) u"
  unfolding linked_from_def by (rule bexI [of _ "length rs"]) simp_all

lemma bfs_inv_initial: "bfs_inv start (initial_state start)"
  by (simp add: bfs_inv_def initial_state_def)

lemma bfs_inv_iteration:
  assumes "urlparse lib start = Inr ps" and "bfs_inv start s"
  shows "bfs_inv start (crawl_iteration lib env start max_pages s)"
proof (cases "to_visit s")
  case Nil
  then show ?thesis using assms(2) by (simp add: crawl_iteration_def)
next
  case (Cons c rest)
  let ?t = "crawl_iteration lib env start max_pages s"
  let ?cp = "crawled_pages s"
  have old: "u = start \<or> linked_from ?cp (length ?cp) u" if "u \<in> set (to_visit s)" for u
    using assms(2) that by (simp add: bfs_inv_def)
  have oldp: "url (?cp ! j) = start \<or> linked_from ?cp j (url (?cp ! j))"
    if "j < length ?cp" for j
    using assms(2) that by (simp add: bfs_inv_def)
  from crawl_iteration_shape [OF assms(1) Cons, of env max_pages]
  show ?thesis
  proof
    assume "c |\<in>| visited s \<and> ?t = s\<lparr>to_visit := rest\<rparr>"
    then have t: "?t = s\<lparr>to_visit := rest\<rparr>" by blast
    show ?thesis unfolding t bfs_inv_def using old oldp Cons by simp
  next
    assume "c |\<notin>| visited s \<and>
          (\<exists>p new. crawled_pages ?t = ?cp @ [p] \<and> url p = c \<and> to_visit ?t = rest @ new
             \<and> set new \<subseteq> set (links p)
             \<and> (\<forall>l\<in>set new. should_crawl_url lib l (scheme ps @ ''://'' @ netloc ps)
                                 (finsert c (visited s)) max_pages)
             \<and> visited ?t = finsert c (visited s))"
    then obtain p new where t: "crawled_pages ?t = ?cp @ [p]" "url p = c"
        "to_visit ?t = rest @ new" "set new \<subseteq> set (links p)"
      by blast
    have q: "u = start \<or> linked_from (?cp @ [p]) (length (?cp @ [p])) u"
      if "u \<in> set (rest @ new)" for u
    proof (cases "u \<in> set rest")
      case True
      then have "u = start \<or> linked_from ?cp (length ?cp) u" using old Cons by simp
      then show ?thesis
      proof
        assume "linked_from ?cp (length ?cp) u"
        then have "linked_from (?cp @ [p]) (length ?cp) u" by (simp add: linked_from_append)
        then show ?thesis using linked_from_mono [of "?cp @ [p]" "length ?cp" u] by simp
      qed simp
    next
      case False
      then have "u \<in> set (links p)" using that t(4) by auto
      then show ?thesis using linked_from_last [of u p ?cp] by simp
    qed
    have r: "url ((?cp @ [p]) ! j) = start \<or> linked_from (?cp @ [p]) j (url ((?cp @ [p]) ! j))"
      if "j < length (?cp @ [p])" for j
    proof (cases "j < length ?cp")
      case True
      then have "(?cp @ [p]) ! j = ?cp ! j" by (simp add: nth_append)
      then show ?thesis using oldp [OF True] True by (simp add: linked_from_append)
    next
      case False
      then have j: "j = length ?cp" using that by simp
      have "c = start \<or> linked_from ?cp (length ?cp) c" using old [of c] Cons by simp
      then show ?thesis unfolding j using t(2) by (simp add: linked_from_append)
    qed
    show ?thesis
      unfolding bfs_inv_def t(1) t(3) using q r by simp
  qed
qed

text \<open>
  C3. Each pass through the loop removes the front of the queue and adds the newly accepted
  links, all taken from the links of the page just processed, at the back. So in the results
  of a finished crawl every page other than the start page comes after a page that links to
  it; in particular, if the page at position \<open>i\<close> is the only result that links to the
  page at position \<open>j\<close>, then \<open>i < j\<close>.
\<close>

theorem frontier_is_fifo:
  assumes "is_valid_url lib start"
  shows "(\<forall>s. loop_condition max_pages s \<longrightarrow>
            (\<exists>new. to_visit (crawl_iteration lib env start max_pages s) = tl (to_visit s) @ new
               \<and> (hd (to_visit s) |\<notin>| visited s \<longrightarrow>
                   (\<exists>p. crawled_pages (crawl_iteration lib env start max_pages s)
                          = crawled_pages s @ [p]
                        \<and> url p = hd (to_visit s) \<and> set new \<subseteq> set (links p)))))
       \<and> (let ps = crawled_pages (crawl_loop lib env start max_pages (initial_state start))
          in (\<forall>j<length ps. url (ps ! j) \<noteq> start \<longrightarrow>
                (\<exists>i<j. url (ps ! j) \<in> set (links (ps ! i))))
             \<and> (\<forall>i j. i < length ps \<and> j < length ps \<and> url (ps ! j) \<noteq> start
                  \<and> (\<forall>k<length ps. url (ps ! j) \<in> set (links (ps ! k)) \<longrightarrow> k = i)
                  \<longrightarrow> i < j))"
proof -
  obtain ps0 where ps0: "urlparse lib start = Inr ps0"
    using valid_start_parses [OF assms] by blast
  have a: "\<exists>new. to_visit (crawl_iteration lib env start max_pages s) = tl (to_visit s) @ new
               \<and> (hd (to_visit s) |\<notin>| visited s \<longrightarrow>
                   (\<exists>p. crawled_pages (crawl_iteration lib env start max_pages s)
                          = crawled_pages s @ [p]
                        \<and> url p = hd (to_visit s) \<and> set new \<subseteq> set (links p)))"
    if "loop_condition max_pages s" for s
  proof -
    from that obtain c rest where tv: "to_visit s = c # rest"
      by (cases "to_visit s") (auto simp: loop_condition_def)
    from crawl_iteration_shape [OF ps0 tv, of env max_pages] show ?thesis
    proof
      assume "c |\<in>| visited s \<and> crawl_iteration lib env start max_pages s = s\<lparr>to_visit := rest\<rparr>"
      then show ?thesis using tv by simp
    next
      assume "c |\<notin>| visited s \<and>
          (\<exists>p new. crawled_pages (crawl_iteration lib env start max_pages s) = crawled_pages s @ [p]
             \<and> url p = c
             \<and> to_visit (crawl_iteration lib env start max_pages s) = rest @ new
             \<and> set new \<subseteq> set (links p)
             \<and> (\<forall>l\<in>set new. should_crawl_url lib l (scheme ps0 @ ''://'' @ netloc ps0)
                                 (finsert c (visited s)) max_pages)
             \<and> visited (crawl_iteration lib env start max_pages s) = finsert c (visited s))"
      then show ?thesis using tv by auto
    qed
  qed
  define ps where "ps = crawled_pages (crawl_loop lib env start max_pages (initial_state start))"
  have "bfs_inv start (crawl_loop lib env start max_pages (initial_state start))"
    by (rule crawl_loop_invariant [where P = "bfs_inv start"])
       (auto intro: bfs_inv_initial bfs_inv_iteration [OF ps0])
  then have b: "\<forall>j<length ps. url (ps ! j) \<noteq> start \<longrightarrow>
                (\<exists>i<j. url (ps ! j) \<in> set (links (ps ! i)))"
    unfolding bfs_inv_def ps_def linked_from_def by auto
  have c: "i < j"
    if h: "i < length ps \<and> j < length ps \<and> url (ps ! j) \<noteq> start
          \<and> (\<forall>k<length ps. url (ps ! j) \<in> set (links (ps ! k)) \<longrightarrow> k = i)" for i j
  proof -
    from b h obtain i' where i': "i' < j" "url (ps ! j) \<in> set (links (ps ! i'))" by blast
    then have "i' < length ps" using h by simp
    then have "i' = i" using h i'(2) by blast
    then show ?thesis using i'(1) by simp
  qed
  show ?thesis using a b c unfolding ps_def [symmetric] Let_def by blast
qed


theorem frontier_is_fifo_witness:
  "is_valid_url (py_urllib no_host_errors) ''https://example.com/''
   \<and> (let ps = crawled_pages (crawl_loop (py_urllib no_host_errors) fixture_browser
                  ''https://example.com/'' 10 (initial_state ''https://example.com/''))
       in map url ps = [''https://example.com/'', ''https://example.com/b'', ''https://example.com/c'']
          \<and> map links ps = [[''https://example.com/b'', ''https://example.com/c''],
                            [''https://example.com/'', ''https://other.org/d''], []])
   \<and> (let ps = crawled_pages (crawl_loop (py_urllib no_host_errors) fixture_browser
                  ''https://example.com/'' 10 (initial_state ''https://example.com/''))
       in (\<forall>j<length ps. url (ps ! j) \<noteq> ''https://example.com/'' \<longrightarrow>
             (\<exists>i<j. url (ps ! j) \<in> set (links (ps ! i))))
          \<and> (\<forall>i j. i < length ps \<and> j < length ps \<and> url (ps ! j) \<noteq> ''https://example.com/''
               \<and> (\<forall>k<length ps. url (ps ! j) \<in> set (links (ps ! k)) \<longrightarrow> k = i)
               \<longrightarrow> i < j))"
proof -
  have v: "is_valid_url (py_urllib no_host_errors) ''https://example.com/''" by code_simp
  have e: "let ps = crawled_pages (crawl_loop (py_urllib no_host_errors) fixture_browser
                  ''https://example.com/'' 10 (initial_state ''https://example.com/''))
       in map url ps = [''https://example.com/'', ''https://example.com/b'', ''https://example.com/c'']
          \<and> map links ps = [[''https://example.com/b'', ''https://example.com/c''],
                            [''https://example.com/'', ''https://other.org/d''], []]"
    by code_simp
  show ?thesis
    using v e frontier_is_fifo [OF v, of 10 fixture_browser] by blast
qed

definition netloc_of :: "urllib \<Rightarrow> string \<Rightarrow> string option" where
  \<comment> \<open>\<open>urlparse(u).netloc\<close>, \<open>None\<close> when the parse raises\<close>
  "netloc_of lib u = (case urlparse lib u of Inl e \<Rightarrow> None | Inr p \<Rightarrow> Some (netloc p))"

definition site_inv :: "urllib \<Rightarrow> string \<Rightarrow> string \<Rightarrow> crawl_state \<Rightarrow> bool" where
  "site_inv lib start base_domain s =
     (\<forall>u\<in>set (to_visit s) \<union> fset (visited s).
        u = start \<or> (netloc_of lib u \<noteq> None \<and> netloc_of lib u = netloc_of lib base_domain))"

lemma should_crawl_url_netloc:
  "should_crawl_url lib l bd vis mp \<Longrightarrow>
     netloc_of lib l \<noteq> None \<and> netloc_of lib l = netloc_of lib bd"
  by (auto simp: should_crawl_url_def netloc_of_def split: if_splits sum.splits)

lemma site_inv_initial: "site_inv lib start bd (initial_state start)"
  by (simp add: site_inv_def initial_state_def)

lemma site_inv_iteration:
  assumes "urlparse lib start = Inr ps" and "site_inv lib start (scheme ps @ ''://'' @ netloc ps) s"
  shows "site_inv lib start (scheme ps @ ''://'' @ netloc ps)
           (crawl_iteration lib env start max_pages s)"
proof (cases "to_visit s")
  case Nil
  then show ?thesis using assms(2) by (simp add: crawl_iteration_def)
next
  case (Cons c rest)
  let ?t = "crawl_iteration lib env start max_pages s"
  let ?bd = "scheme ps @ ''://'' @ netloc ps"
  have old: "u = start \<or> (netloc_of lib u \<noteq> None \<and> netloc_of lib u = netloc_of lib ?bd)"
    if "u \<in> set (to_visit s) \<or> u |\<in>| visited s" for u
    using assms(2) that unfolding site_inv_def by blast
  from crawl_iteration_shape [OF assms(1) Cons, of env max_pages]
  show ?thesis
  proof
    assume "c |\<in>| visited s \<and> ?t = s\<lparr>to_visit := rest\<rparr>"
    then have t: "?t = s\<lparr>to_visit := rest\<rparr>" by blast
    show ?thesis unfolding t site_inv_def using old Cons by auto
  next
    assume "c |\<notin>| visited s \<and>
          (\<exists>p new. crawled_pages ?t = crawled_pages s @ [p] \<and> url p = c \<and> to_visit ?t = rest @ new
             \<and> set new \<subseteq> set (links p)
             \<and> (\<forall>l\<in>set new. should_crawl_url lib l ?bd (finsert c (visited s)) max_pages)
             \<and> visited ?t = finsert c (visited s))"
    then obtain new where t: "to_visit ?t = rest @ new" "visited ?t = finsert c (visited s)"
      "\<forall>l\<in>set new. should_crawl_url lib l ?bd (finsert c (visited s)) max_pages"
      by blast
    have "u = start \<or> (netloc_of lib u \<noteq> None \<and> netloc_of lib u = netloc_of lib ?bd)"
      if "u \<in> set (rest @ new) \<union> fset (finsert c (visited s))" for u
    proof (cases "u \<in> set new")
      case True
      then show ?thesis using t(3) should_crawl_url_netloc by blast
    next
      case False
      then have "u \<in> set (to_visit s) \<or> u |\<in>| visited s" using that Cons by auto
      then show ?thesis by (rule old)
    qed
    then show ?thesis unfolding site_inv_def t(1) t(2) by blast
  qed
qed


lemma frontier_netloc_any_library:
  assumes "urlparse lib start = Inr ps"
  shows "site_inv lib start (scheme ps @ ''://'' @ netloc ps)
           (crawl_steps n lib env start max_pages (initial_state start))"
proof (rule crawl_steps_invariant [where P = "site_inv lib start (scheme ps @ ''://'' @ netloc ps)"])
  show "site_inv lib start (scheme ps @ ''://'' @ netloc ps) (initial_state start)"
    by (rule site_inv_initial)
qed (rule site_inv_iteration [OF assms])

text \<open>
  C2. With the library as CPython has it, a valid start URL and any browser environment:
  after any number of passes through the loop, every URL in the queue or in the visited set,
  other than the start URL, parses to the same \<open>netloc\<close> string as the start URL; the same
  holds of the visited URLs and of the URLs of the results when the crawl has ended. Put the
  other way round, a link whose \<open>netloc\<close> differs from that of the start URL (or that does
  not parse) is never in the queue and never visited, whatever link lists it appears in.
\<close>

theorem frontier_stays_on_site:
  assumes "is_valid_url (py_urllib hc) start"
  shows "(\<forall>n. \<forall>u\<in>set (to_visit (crawl_steps n (py_urllib hc) env start max_pages (initial_state start)))
               \<union> fset (visited (crawl_steps n (py_urllib hc) env start max_pages (initial_state start))).
            u \<noteq> start \<longrightarrow> netloc_of (py_urllib hc) u = netloc_of (py_urllib hc) start)
       \<and> (\<forall>u\<in>fset (visited (crawl_loop (py_urllib hc) env start max_pages (initial_state start)))
               \<union> set (map url (crawled_pages
                     (crawl_loop (py_urllib hc) env start max_pages (initial_state start)))).
            u \<noteq> start \<longrightarrow> netloc_of (py_urllib hc) u = netloc_of (py_urllib hc) start)
       \<and> (\<forall>n l. l \<noteq> start \<and> netloc_of (py_urllib hc) l \<noteq> netloc_of (py_urllib hc) start \<longrightarrow>
            l \<notin> set (to_visit (crawl_steps n (py_urllib hc) env start max_pages (initial_state start)))
            \<and> l |\<notin>| visited (crawl_steps n (py_urllib hc) env start max_pages (initial_state start)))"
proof -
  let ?L = "py_urllib hc"
  obtain ps where ps: "urlparse ?L start = Inr ps" using valid_start_parses [OF assms] by blast
  obtain pb where pb: "urlparse ?L (scheme ps @ ''://'' @ netloc ps) = Inr pb" "netloc pb = netloc ps"
    using py_reparse [OF assms ps] by blast
  have same: "netloc_of ?L (scheme ps @ ''://'' @ netloc ps) = netloc_of ?L start"
    using ps pb by (simp add: netloc_of_def)
  have a: "u \<noteq> start \<longrightarrow> netloc_of ?L u = netloc_of ?L start"
    if "u \<in> set (to_visit (crawl_steps n ?L env start max_pages (initial_state start)))
           \<union> fset (visited (crawl_steps n ?L env start max_pages (initial_state start)))" for n u
    using frontier_netloc_any_library [OF ps, of n env max_pages] that same
    unfolding site_inv_def by auto
  obtain n0 where n0: "crawl_loop ?L env start max_pages (initial_state start)
                      = crawl_steps n0 ?L env start max_pages (initial_state start)"
    using crawl_loop_steps by blast
  have "pages_inv (crawl_loop ?L env start max_pages (initial_state start))"
    by (rule crawl_loop_invariant [where P = pages_inv])
       (auto intro: pages_inv_initial pages_inv_iteration [OF ps])
  then have pv: "set (map url (crawled_pages (crawl_loop ?L env start max_pages (initial_state start))))
               = fset (visited (crawl_loop ?L env start max_pages (initial_state start)))"
    by (simp add: pages_inv_def)
  have b: "u \<noteq> start \<longrightarrow> netloc_of ?L u = netloc_of ?L start"
    if "u \<in> fset (visited (crawl_loop ?L env start max_pages (initial_state start)))
             \<union> set (map url (crawled_pages
                     (crawl_loop ?L env start max_pages (initial_state start))))" for u
  proof -
    from that have "u \<in> fset (visited (crawl_loop ?L env start max_pages (initial_state start)))"
      unfolding pv by simp
    then have "u \<in> fset (visited (crawl_steps n0 ?L env start max_pages (initial_state start)))"
      by (simp only: n0)
    then show ?thesis using a [of u n0] by simp
  qed
  have c: "l \<notin> set (to_visit (crawl_steps n ?L env start max_pages (initial_state start)))
            \<and> l |\<notin>| visited (crawl_steps n ?L env start max_pages (initial_state start))"
    if "l \<noteq> start \<and> netloc_of ?L l \<noteq> netloc_of ?L start" for n l
    using a [of l n] that by auto
  have a': "\<forall>n. \<forall>u\<in>set (to_visit (crawl_steps n ?L env start max_pages (initial_state start)))
               \<union> fset (visited (crawl_steps n ?L env start max_pages (initial_state start))).
            u \<noteq> start \<longrightarrow> netloc_of ?L u = netloc_of ?L start"
    using a by blast
  have b': "\<forall>u\<in>fset (visited (crawl_loop ?L env start max_pages (initial_state start)))
               \<union> set (map url (crawled_pages
                     (crawl_loop ?L env start max_pages (initial_state start)))).
            u \<noteq> start \<longrightarrow> netloc_of ?L u = netloc_of ?L start"
    using b by blast
  have c': "\<forall>n l. l \<noteq> start \<and> netloc_of ?L l \<noteq> netloc_of ?L start \<longrightarrow>
            l \<notin> set (to_visit (crawl_steps n ?L env start max_pages (initial_state start)))
            \<and> l |\<notin>| visited (crawl_steps n ?L env start max_pages (initial_state start))"
    using c by blast
  show ?thesis by (rule conjI [OF a' conjI [OF b' c']])
qed

theorem frontier_stays_on_site_witness:
  "is_valid_url (py_urllib no_host_errors) ''https://example.com/''
   \<and> (let s = crawl_loop (py_urllib no_host_errors) fixture_browser ''https://example.com/'' 10
                 (initial_state ''https://example.com/'')
       in ''https://other.org/d'' \<in> set (concat (map links (crawled_pages s)))
          \<and> visited s = {|''https://example.com/'', ''https://example.com/b'', ''https://example.com/c''|}
          \<and> netloc_of (py_urllib no_host_errors) ''https://other.org/d'' = Some ''other.org''
          \<and> netloc_of (py_urllib no_host_errors) ''https://example.com/'' = Some ''example.com'')
   \<and> list_all (\<lambda>u. u = ''https://example.com/''
                    \<or> netloc_of (py_urllib no_host_errors) u
                        = netloc_of (py_urllib no_host_errors) ''https://example.com/'')
        (map url (crawled_pages (crawl_loop (py_urllib no_host_errors) fixture_browser
                  ''https://example.com/'' 10 (initial_state ''https://example.com/''))))
   \<and> (\<forall>n. ''https://other.org/d'' \<notin> set (to_visit (crawl_steps n (py_urllib no_host_errors)
              fixture_browser ''https://example.com/'' 10 (initial_state ''https://example.com/''))))"
proof -
  have v: "is_valid_url (py_urllib no_host_errors) ''https://example.com/''" by code_simp
  have e: "let s = crawl_loop (py_urllib no_host_errors) fixture_browser ''https://example.com/'' 10
                 (initial_state ''https://example.com/'')
       in ''https://other.org/d'' \<in> set (concat (map links (crawled_pages s)))
          \<and> visited s = {|''https://example.com/'', ''https://example.com/b'', ''https://example.com/c''|}
          \<and> netloc_of (py_urllib no_host_errors) ''https://other.org/d'' = Some ''other.org''
          \<and> netloc_of (py_urllib no_host_errors) ''https://example.com/'' = Some ''example.com''"
    by code_simp
  have d: "''https://other.org/d'' \<noteq> ''https://example.com/''
         \<and> netloc_of (py_urllib no_host_errors) ''https://other.org/d''
           \<noteq> netloc_of (py_urllib no_host_errors) ''https://example.com/''"
    by code_simp
  note t = frontier_stays_on_site [OF v, of fixture_browser 10]
  have t2: "list_all (\<lambda>u. u = ''https://example.com/''
                    \<or> netloc_of (py_urllib no_host_errors) u
                        = netloc_of (py_urllib no_host_errors) ''https://example.com/'')
        (map url (crawled_pages (crawl_loop (py_urllib no_host_errors) fixture_browser
                  ''https://example.com/'' 10 (initial_state ''https://example.com/''))))"
    unfolding list_all_iff using t [THEN conjunct2, THEN conjunct1] by blast
  have t3: "\<forall>n. ''https://other.org/d'' \<notin> set (to_visit (crawl_steps n (py_urllib no_host_errors)
              fixture_browser ''https://example.com/'' 10 (initial_state ''https://example.com/'')))"
  proof (rule allI)
    fix n
    show "''https://other.org/d'' \<notin> set (to_visit (crawl_steps n (py_urllib no_host_errors)
              fixture_browser ''https://example.com/'' 10 (initial_state ''https://example.com/'')))"
      by (rule t [THEN conjunct2, THEN conjunct2, rule_format, OF d, THEN conjunct1])
  qed
  show ?thesis by (rule conjI [OF v conjI [OF e conjI [OF t2 t3]]])
qed

section \<open>The internal-link helper\<close>

definition py_isspace :: "char \<Rightarrow> bool" where
  \<comment> \<open>\<open>str.isspace\<close> on code points below 256\<close>
  "py_isspace c =
     (let n = (of_char c :: nat)
      in (9 \<le> n \<and> n \<le> 13) \<or> (28 \<le> n \<and> n \<le> 32) \<or> n = 133 \<or> n = 160)"

definition strip_ws :: "string \<Rightarrow> string" where
  \<comment> \<open>\<open>s.strip()\<close>\<close>
  "strip_ws s = rev (dropWhile py_isspace (rev (dropWhile py_isspace s)))"

definition endswith :: "string \<Rightarrow> string \<Rightarrow> bool" where
  "endswith s suf = (length suf \<le> length s \<and> drop (length s - length suf) s = suf)"

datatype link_kind = Skipped | Mailto_link | Tel_link | Anchor_link
  | Internal_link string | Other_link string

definition is_internal_domain :: "string \<Rightarrow> string \<Rightarrow> bool" where
  \<comment> \<open>the test "Check if it's internal (same domain)" of \<open>_get_internal_links\<close>\<close>
  "is_internal_domain link_domain base_domain =
     (link_domain = base_domain \<or> endswith link_domain (''.'' @ base_domain)
      \<or> (startswith link_domain ''www.'' \<and> drop 4 link_domain = base_domain))"

definition classify_link :: "urllib \<Rightarrow> string \<Rightarrow> string option \<Rightarrow> string + link_kind" where
  \<comment> \<open>the body of the loop of \<open>_get_internal_links(page, base_url)\<close> for one \<open>a[href]\<close> element
      whose browser calls raise nothing; \<open>Inl\<close> when \<open>urlparse(base_url)\<close> raises and the
      function returns its error dictionary. \<open>Internal_link full_url\<close> is the branch that
      counts the link in \<open>total_internal_links\<close>.\<close>
  "classify_link lib base_url href0 =
     (case urlparse lib base_url of
        Inl e \<Rightarrow> Inl e
      | Inr base_parsed \<Rightarrow>
          Inr (let base_domain = lower (netloc base_parsed);
                   base_scheme = scheme base_parsed
               in case href0 of
                    None \<Rightarrow> Skipped
                  | Some h \<Rightarrow>
                     if h = [] then Skipped
                     else (let href = strip_ws h
                           in if startswith href ''javascript:'' \<or> startswith href ''data:''
                              then Skipped
                              else if startswith href ''mailto:'' then Mailto_link
                              else if startswith href ''tel:'' then Tel_link
                              else if startswith href ''#'' then Anchor_link
                              else (case (if startswith href ''http://'' \<or> startswith href ''https://''
                                          then Inr href
                                          else if startswith href ''//''
                                          then Inr (base_scheme @ '':'' @ href)
                                          else urljoin lib base_url href) of
                                      Inl e \<Rightarrow> Skipped
                                    | Inr full_url \<Rightarrow>
                                       (case urlparse lib full_url of
                                          Inl e \<Rightarrow> Skipped
                                        | Inr parsed_url \<Rightarrow>
                                            if netloc parsed_url = [] then Skipped
                                            else if is_internal_domain (lower (netloc parsed_url))
                                                      base_domain
                                            then Internal_link full_url
                                            else Other_link full_url)))))"


text \<open>
  C9. \<open>_should_crawl_url\<close> accepts a link exactly when it is non-empty, not visited, within
  the budget, and both it and the base parse to equal \<open>netloc\<close> strings. With the library as
  CPython has it, \<open>_get_internal_links\<close> on the base \<open>https://example.com/\<close> counts as
  internal a \<open>www.\<close>-prefixed host, a subdomain and a host that differs in case only, while
  \<open>_should_crawl_url\<close> rejects each of the three against the crawler's base
  \<open>https://example.com\<close>, with nothing visited and budget left: the two predicates differ.
\<close>

theorem same_domain_predicates_differ:
  "should_crawl_url lib l bd vis mp
     = (l \<noteq> [] \<and> l |\<notin>| vis \<and> int (fcard vis) < mp
        \<and> netloc_of lib l \<noteq> None \<and> netloc_of lib l = netloc_of lib bd)
   \<and> classify_link (py_urllib hc) ''https://example.com/'' (Some ''https://www.example.com/about'')
       = Inr (Internal_link ''https://www.example.com/about'')
   \<and> \<not> should_crawl_url (py_urllib hc) ''https://www.example.com/about'' ''https://example.com'' {||} 10
   \<and> classify_link (py_urllib hc) ''https://example.com/'' (Some ''https://blog.example.com/post'')
       = Inr (Internal_link ''https://blog.example.com/post'')
   \<and> \<not> should_crawl_url (py_urllib hc) ''https://blog.example.com/post'' ''https://example.com'' {||} 10
   \<and> classify_link (py_urllib hc) ''https://example.com/'' (Some ''https://EXAMPLE.com/Team'')
       = Inr (Internal_link ''https://EXAMPLE.com/Team'')
   \<and> \<not> should_crawl_url (py_urllib hc) ''https://EXAMPLE.com/Team'' ''https://example.com'' {||} 10"
proof -
  have a: "should_crawl_url lib l bd vis mp
     = (l \<noteq> [] \<and> l |\<notin>| vis \<and> int (fcard vis) < mp
        \<and> netloc_of lib l \<noteq> None \<and> netloc_of lib l = netloc_of lib bd)"
    by (auto simp: should_crawl_url_def netloc_of_def split: sum.splits)
  have b: "classify_link (py_urllib hc) ''https://example.com/'' (Some ''https://www.example.com/about'')
       = Inr (Internal_link ''https://www.example.com/about'')
   \<and> \<not> should_crawl_url (py_urllib hc) ''https://www.example.com/about'' ''https://example.com'' {||} 10
   \<and> classify_link (py_urllib hc) ''https://example.com/'' (Some ''https://blog.example.com/post'')
       = Inr (Internal_link ''https://blog.example.com/post'')
   \<and> \<not> should_crawl_url (py_urllib hc) ''https://blog.example.com/post'' ''https://example.com'' {||} 10
   \<and> classify_link (py_urllib hc) ''https://example.com/'' (Some ''https://EXAMPLE.com/Team'')
       = Inr (Internal_link ''https://EXAMPLE.com/Team'')
   \<and> \<not> should_crawl_url (py_urllib hc) ''https://EXAMPLE.com/Team'' ''https://example.com'' {||} 10"
    by code_simp
  show ?thesis using a b by blast
qed

lemma urlunparse_prefix:
  assumes "netloc r \<noteq> []" and "scheme r = ''http'' \<or> scheme r = ''https''"
  shows "startswith (urlunparse r) ''http://'' \<or> startswith (urlunparse r) ''https://''"
  using assms
  by (auto simp: urlunparse_def urlunsplit_def startswith_def Let_def)

lemma py_urljoin_same_or_absolute:
  assumes "py_urlparse_with hc base [] = Inr b"
    and "scheme b = ''http'' \<or> scheme b = ''https''" and "netloc b \<noteq> []"
    and "py_urljoin hc base h = Inr n" and "h \<noteq> []"
  shows "n = h \<or> startswith n ''http://'' \<or> startswith n ''https://''"
proof -
  have base: "base \<noteq> []"
  proof
    assume "base = []"
    then have "py_urlparse_with hc base [] =
       Inr \<lparr>scheme = [], netloc = [], path = [], params = [], query = [], fragment = []\<rparr>"
      by (simp add: py_urlparse_with_def urlsplit_def lstrip_def strip_def split_scheme_def)
    then show False using assms(1,3) by simp
  qed
  obtain r where r: "py_urlparse_with hc h (scheme b) = Inr r"
    using assms(1,4,5) base by (cases "py_urlparse_with hc h (scheme b)") (auto simp: py_urljoin_def)
  have rel: "scheme b \<in> set uses_relative" "scheme b \<in> set uses_netloc"
    using assms(2) by (auto simp: uses_relative_def uses_netloc_def)
  show ?thesis
  proof (cases "scheme r \<noteq> scheme b \<or> scheme r \<notin> set uses_relative")
    case True
    then have "n = h" using assms(1,4,5) base r by (auto simp: py_urljoin_def)
    then show ?thesis by simp
  next
    case False
    then have sr: "scheme r = scheme b" by simp
    have "\<exists>r'. n = urlunparse r' \<and> scheme r' = scheme b \<and> netloc r' \<noteq> []"
    proof (cases "netloc r \<noteq> []")
      case True
      then have "n = urlunparse r" using assms(1,4,5) base r sr rel
        by (auto simp: py_urljoin_def)
      then show ?thesis using sr True by blast
    next
      case nl: False
      show ?thesis
      proof (cases "path r = [] \<and> params r = []")
        case True
        then have "n = urlunparse (r\<lparr>netloc := netloc b, path := path b, params := params b,
                                 query := (if query r = [] then query b else query r)\<rparr>)"
          using assms(1,4,5) base r sr rel nl by (auto simp: py_urljoin_def Let_def)
        then show ?thesis using sr assms(3)
          by (intro exI [of _ "r\<lparr>netloc := netloc b, path := path b, params := params b,
                                 query := (if query r = [] then query b else query r)\<rparr>"]) simp
      next
        case False
        then have "n = urlunparse (r\<lparr>netloc := netloc b, path := join_paths (path b) (path r)\<rparr>)"
          using assms(1,4,5) base r sr rel nl by (auto simp: py_urljoin_def Let_def)
        then show ?thesis using sr assms(3)
          by (intro exI [of _ "r\<lparr>netloc := netloc b, path := join_paths (path b) (path r)\<rparr>"]) simp
      qed
    qed
    then obtain r' where "n = urlunparse r'" "scheme r' = scheme b" "netloc r' \<noteq> []" by blast
    then show ?thesis using urlunparse_prefix [of r'] assms(2) by simp
  qed
qed

theorem normalize_url_idempotent_http_base:
  assumes "is_valid_url (py_urllib hc) base_url"
    and "normalize_url (py_urllib hc) h base_url = Inr n"
  shows "normalize_url (py_urllib hc) n base_url = Inr n
       \<and> (\<forall>lib b a. startswith a ''http://'' \<or> startswith a ''https://'' \<longrightarrow>
             normalize_url lib a b = Inr a)"
proof -
  have abs: "normalize_url lib a b = Inr a"
    if "startswith a ''http://'' \<or> startswith a ''https://''" for lib a b
    using that by (auto simp: normalize_url_def startswith_def split: if_splits)
  obtain b where b: "py_urlparse_with hc base_url [] = Inr b"
    and sb: "scheme b = ''http'' \<or> scheme b = ''https''" and nb: "netloc b \<noteq> []"
    using assms(1)
    by (cases "py_urlparse_with hc base_url []") (auto simp: is_valid_url_def py_urllib_def)
  have idem: "normalize_url (py_urllib hc) n base_url = Inr n"
  proof (cases "h = [] \<or> startswith h ''http://'' \<or> startswith h ''https://''")
    case True
    then have "n = h" using assms(2) by (auto simp: normalize_url_def split: if_splits)
    then show ?thesis using assms(2) by simp
  next
    case False
    show ?thesis
    proof (cases "startswith h ''//''")
      case True
      then have "n = scheme b @ '':'' @ h"
        using False assms(2) b by (auto simp: normalize_url_def py_urllib_def split: if_splits)
      moreover obtain t where "h = ''//'' @ t"
        using True by (metis append_take_drop_id startswith_def)
      ultimately have "startswith n ''http://'' \<or> startswith n ''https://''"
        using sb by (auto simp: startswith_def)
      then show ?thesis by (rule abs)
    next
      case nr: False
      then have j: "py_urljoin hc base_url h = Inr n"
        using False assms(2) by (auto simp: normalize_url_def py_urllib_def split: if_splits)
      have "h \<noteq> []" using False by simp
      from py_urljoin_same_or_absolute [OF b sb nb j this]
      show ?thesis
      proof
        assume "n = h"
        then show ?thesis using assms(2) by simp
      next
        assume "startswith n ''http://'' \<or> startswith n ''https://''"
        then show ?thesis by (rule abs)
      qed
    qed
  qed
  show ?thesis using idem abs by blast
qed

theorem normalize_url_idempotent_http_base_witness:
  "is_valid_url (py_urllib no_host_errors) ''https://example.com/a/b.html''
   \<and> normalize_url (py_urllib no_host_errors) ''../c?x=1'' ''https://example.com/a/b.html''
       = Inr ''https://example.com/c?x=1''
   \<and> normalize_url (py_urllib no_host_errors) ''https://example.com/c?x=1''
         ''https://example.com/a/b.html'' = Inr ''https://example.com/c?x=1''"
proof -
  have v: "is_valid_url (py_urllib no_host_errors) ''https://example.com/a/b.html''" by code_simp
  have n: "normalize_url (py_urllib no_host_errors) ''../c?x=1'' ''https://example.com/a/b.html''
       = Inr ''https://example.com/c?x=1''" by code_simp
  show ?thesis
    using v n normalize_url_idempotent_http_base [OF v n] by blast
qed

theorem normalize_url_not_idempotent:
  "normalize_url (py_urllib no_host_errors) ''c'' ''a/b'' = Inr ''a/c''
   \<and> normalize_url (py_urllib no_host_errors) ''a/c'' ''a/b'' = Inr ''a/a/c''"
  by code_simp

section \<open>The robots.txt audit\<close>

text \<open>
  The outside world of \<open>check_robots_txt\<close>: whether \<open>requests\<close> could be imported, what
  \<open>session.get\<close> on a URL does, and the three places where the code handles
  floating-point crawl delays, which stay abstract: whether \<open>float(value)\<close> returns, whether
  the float is above 10, and how a dictionary of delays prints. Response time, audit time
  and time stamp are wall-clock values and are left out of the records.
\<close>

datatype http_outcome =
    Response int string "string option"
  | Timeout
  | ConnectionError
  | RequestException string
  | OtherException string

record robots_env =
  requests_available :: bool
  http_get :: "string \<Rightarrow> http_outcome"
  float_parses :: "string \<Rightarrow> bool"
  float_above_10 :: "string \<Rightarrow> bool"
  repr_delays :: "(string \<times> string) list \<Rightarrow> string"

record fetch_result =
  success :: bool
  fetch_error :: "string option"
  content :: "string option"
  fetch_url :: "string option"
  fetch_status_code :: "int option"
  content_type :: "string option"
  content_length :: "nat option"

definition fetch_failure :: "string \<Rightarrow> string option \<Rightarrow> fetch_result" where
  \<comment> \<open>the dictionary of the four \<open>except\<close> branches of \<open>_fetch_robots_txt\<close>\<close>
  "fetch_failure msg u =
     \<lparr>success = False, fetch_error = Some msg, content = None, fetch_url = u,
      fetch_status_code = Some 0, content_type = None, content_length = None\<rparr>"

definition fetch_robots_txt :: "urllib \<Rightarrow> robots_env \<Rightarrow> string \<Rightarrow> fetch_result" where
  "fetch_robots_txt lib env base_url =
     (if \<not> requests_available env
      then \<lparr>success = False, fetch_error = Some ''requests library not available'',
            content = None, fetch_url = None, fetch_status_code = None,
            content_type = None, content_length = None\<rparr>
      else (case urlparse lib base_url of
              Inl e \<Rightarrow> fetch_failure (''Unexpected error: '' @ e) None
            | Inr parsed_url \<Rightarrow>
               (let robots_url = scheme parsed_url @ ''://'' @ netloc parsed_url @ ''/robots.txt''
                in case http_get env robots_url of
                     Response code body ctype \<Rightarrow>
                       \<lparr>success = True, fetch_error = None,
                        content = (if code = 200 then Some body else None),
                        fetch_url = Some robots_url, fetch_status_code = Some code,
                        content_type = Some (case ctype of None \<Rightarrow> [] | Some t \<Rightarrow> t),
                        content_length = Some (if code = 200 then length body else 0)\<rparr>
                   | Timeout \<Rightarrow> fetch_failure ''Request timed out'' (Some robots_url)
                   | ConnectionError \<Rightarrow>
                       fetch_failure ''Could not connect to the server'' (Some robots_url)
                   | RequestException e \<Rightarrow>
                       fetch_failure (''Request failed: '' @ e) (Some robots_url)
                   | OtherException e \<Rightarrow>
                       fetch_failure (''Unexpected error: '' @ e) (Some robots_url))))"

record robots_message =
  line_no :: nat
  line_content :: string
  message :: string

record ua_rules =
  allow :: "string list"
  disallow :: "string list"
  ua_crawl_delay :: "string option"

record parsed_robots =
  user_agents :: "(string \<times> ua_rules) list"
  sitemaps :: "string list"
  crawl_delay :: "(string \<times> string) list"
  host :: "string option"
  total_rules :: nat
  warnings :: "robots_message list"
  parse_errors :: "robots_message list"

definition empty_parsed :: parsed_robots where
  "empty_parsed =
     \<lparr>user_agents = [], sitemaps = [], crawl_delay = [], host = None, total_rules = 0,
      warnings = [], parse_errors = []\<rparr>"

fun dict_set :: "'k \<Rightarrow> 'v \<Rightarrow> ('k \<times> 'v) list \<Rightarrow> ('k \<times> 'v) list" where
  \<comment> \<open>\<open>d[k] = v\<close> on a dictionary kept in insertion order\<close>
  "dict_set k v [] = [(k, v)]"
| "dict_set k v ((k', v') # d) = (if k' = k then (k, v) # d else (k', v') # dict_set k v d)"

definition new_rules :: ua_rules where
  "new_rules = \<lparr>allow = [], disallow = [], ua_crawl_delay = None\<rparr>"

definition ua_get :: "parsed_robots \<Rightarrow> string \<Rightarrow> ua_rules" where
  \<comment> \<open>\<open>user_agents[ua]\<close> for a \<open>ua\<close> that a User-agent line has entered\<close>
  "ua_get pd ua = (case map_of (user_agents pd) ua of None \<Rightarrow> new_rules | Some r \<Rightarrow> r)"

definition parse_line :: "robots_env \<Rightarrow> nat \<Rightarrow> string \<Rightarrow> string option \<times> parsed_robots \<Rightarrow>
    string option \<times> parsed_robots" where
  \<comment> \<open>the body of the \<open>for\<close> loop of \<open>_parse_robots_txt\<close>; the state is
      \<open>current_user_agent\<close> and \<open>parsed_data\<close>\<close>
  "parse_line env line_num raw st =
     (let (cur, pd) = st;
          line = strip_ws (takeWhile (\<lambda>c. c \<noteq> CHR ''#'') raw);
          err = (\<lambda>t. pd\<lparr>parse_errors := parse_errors pd @
                   [\<lparr>line_no = line_num, line_content = line, message = t\<rparr>]\<rparr>);
          warn = (\<lambda>t. pd\<lparr>warnings := warnings pd @
                   [\<lparr>line_no = line_num, line_content = line, message = t\<rparr>]\<rparr>)
      in if line = [] then st
         else if CHR '':'' \<notin> set line then (cur, err ''Invalid syntax: missing colon'')
         else (let directive = lower (strip_ws (fst (split_first (CHR '':'') line)));
                   val = strip_ws (snd (split_first (CHR '':'') line))
               in if val = [] \<and> directive \<noteq> ''user-agent''
                  then (cur, warn ''Empty value for directive'')
                  else if directive = ''user-agent''
                  then (let ua = (if val \<noteq> [] then val else ''*'')
                        in (Some ua,
                            pd\<lparr>user_agents :=
                                  (if ua \<in> fst ` set (user_agents pd) then user_agents pd
                                   else user_agents pd @ [(ua, new_rules)]),
                                total_rules := total_rules pd + 1\<rparr>))
                  else if directive = ''allow'' \<or> directive = ''disallow''
                  then (case cur of
                          None \<Rightarrow>
                            (cur, err ((if directive = ''allow'' then ''Allow'' else ''Disallow'')
                                       @ '' directive without User-agent''))
                        | Some ua \<Rightarrow>
                            (cur,
                             pd\<lparr>user_agents := dict_set ua
                                   (if directive = ''allow''
                                    then (ua_get pd ua)\<lparr>allow := allow (ua_get pd ua) @ [val]\<rparr>
                                    else (ua_get pd ua)\<lparr>disallow := disallow (ua_get pd ua) @ [val]\<rparr>)
                                   (user_agents pd),
                                 total_rules := total_rules pd + 1\<rparr>))
                  else if directive = ''crawl-delay''
                  then (case cur of
                          None \<Rightarrow> (cur, err ''Crawl-delay directive without User-agent'')
                        | Some ua \<Rightarrow>
                            if float_parses env val
                            then (cur,
                                  pd\<lparr>user_agents := dict_set ua
                                        ((ua_get pd ua)\<lparr>ua_crawl_delay := Some val\<rparr>)
                                        (user_agents pd),
                                      crawl_delay := dict_set ua val (crawl_delay pd),
                                      total_rules := total_rules pd + 1\<rparr>)
                            else (cur, err ''Invalid crawl-delay value: must be a number''))
                  else if directive = ''sitemap''
                  then (let pd1 = (if \<not> (startswith val ''http://'' \<or> startswith val ''https://'')
                                   then warn ''Sitemap URL should be absolute (include http/https)''
                                   else pd)
                        in (cur, pd1\<lparr>sitemaps := sitemaps pd1 @ [val],
                                     total_rules := total_rules pd1 + 1\<rparr>))
                  else if directive = ''host''
                  then (cur, pd\<lparr>host := Some val, total_rules := total_rules pd + 1\<rparr>)
                  else (cur, warn (''Unknown directive: '' @ directive))))"

fun parse_lines :: "robots_env \<Rightarrow> nat \<Rightarrow> string list \<Rightarrow> string option \<times> parsed_robots \<Rightarrow>
    string option \<times> parsed_robots" where
  "parse_lines env n [] st = st"
| "parse_lines env n (l # ls) st = parse_lines env (Suc n) ls (parse_line env n l st)"

definition parse_robots_txt :: "robots_env \<Rightarrow> string \<Rightarrow> parsed_robots" where
  "parse_robots_txt env text =
     (if text = [] then empty_parsed
      else snd (parse_lines env 1 (split_on (CHR 0x0A) (strip_ws text)) (None, empty_parsed)))"


fun str_nat :: "nat \<Rightarrow> string" where
  \<comment> \<open>\<open>str(n)\<close>\<close>
  "str_nat n =
     (if n < 10 then [char_of (48 + n)] else str_nat (n div 10) @ [char_of (48 + n mod 10)])"

fun contains :: "string \<Rightarrow> string \<Rightarrow> bool" where
  \<comment> \<open>\<open>sub in s\<close>\<close>
  "contains [] sub = (sub = [])"
| "contains (c # cs) sub = (startswith (c # cs) sub \<or> contains cs sub)"

record robots_summary =
  total_user_agents :: nat
  total_sitemaps :: nat
  has_crawl_delays :: bool
  has_errors :: bool
  has_warnings :: bool
  summary_total_rules :: nat

record crawlability =
  completely_blocked :: bool
  partially_blocked :: bool
  major_sections_blocked :: "string list"
  allows_crawling :: bool

record robots_analysis =
  summary :: robots_summary
  recommendations :: "string list"
  seo_impact :: "string list"
  crawlability_info :: crawlability

definition add_recommendation :: "string \<Rightarrow> robots_analysis \<Rightarrow> robots_analysis" where
  "add_recommendation t a = a\<lparr>recommendations := recommendations a @ [t]\<rparr>"

definition add_seo_impact :: "string \<Rightarrow> robots_analysis \<Rightarrow> robots_analysis" where
  "add_seo_impact t a = a\<lparr>seo_impact := seo_impact a @ [t]\<rparr>"

definition search_engines :: "string list" where
  "search_engines = [''googlebot'', ''bingbot'', ''slurp'', ''duckduckbot'', ''facebookexternalhit'']"

definition analyze_robots_txt :: "robots_env \<Rightarrow> parsed_robots \<Rightarrow> string \<Rightarrow> robots_analysis" where
  \<comment> \<open>\<open>_analyze_robots_txt(parsed_data, base_url)\<close>, one \<open>let\<close> per statement\<close>
  "analyze_robots_txt env pd base_url =
     (let a0 = \<lparr>summary =
                  \<lparr>total_user_agents = length (user_agents pd),
                   total_sitemaps = length (sitemaps pd),
                   has_crawl_delays = (length (crawl_delay pd) > 0),
                   has_errors = (length (parse_errors pd) > 0),
                   has_warnings = (length (warnings pd) > 0),
                   summary_total_rules = total_rules pd\<rparr>,
                recommendations = [], seo_impact = [],
                crawlability_info =
                  \<lparr>completely_blocked = False, partially_blocked = False,
                   major_sections_blocked = [], allows_crawling = True\<rparr>\<rparr>;
          a1 = (case map_of (user_agents pd) ''*'' of
                  None \<Rightarrow> a0
                | Some wildcard_rules \<Rightarrow>
                    if ''/'' \<in> set (disallow wildcard_rules) \<and> allow wildcard_rules = []
                    then add_recommendation
                           ''Consider allowing at least major search engines to crawl your site''
                           (add_seo_impact ''Site completely blocks all crawlers - will hurt SEO''
                              (a0\<lparr>crawlability_info :=
                                    (crawlability_info a0)\<lparr>completely_blocked := True\<rparr>\<rparr>))
                    else a0);
          blocked_important =
            concat (map (\<lambda>(ua, rules).
                      filter (\<lambda>d. list_ex (\<lambda>p. contains (lower d) p)
                                     [''/admin'', ''/wp-admin'', ''/private''])
                             (disallow rules))
                    (user_agents pd));
          a2 = (if blocked_important \<noteq> []
                then add_recommendation
                       ''Good: Important admin/private sections are blocked from crawlers'' a1
                else a1);
          a3 = (if sitemaps pd = []
                then add_seo_impact ''No sitemap specified - may slow content discovery''
                       (add_recommendation
                          ''Consider adding sitemap URL(s) to help search engines discover content''
                          a2)
                else if length (filter (\<lambda>sm. startswith sm ''http://'' \<or> startswith sm ''https://'')
                                   (sitemaps pd)) = length (sitemaps pd)
                then add_recommendation ''Good: All sitemap URLs are properly formatted'' a2
                else add_recommendation
                       ''Some sitemap URLs may be invalid - ensure they are absolute URLs'' a2);
          high_delays = filter (\<lambda>(ua, delay). float_above_10 env delay) (crawl_delay pd);
          a4 = (if crawl_delay pd \<noteq> [] \<and> high_delays \<noteq> []
                then add_recommendation ''Very high crawl delays may significantly slow indexing''
                       (add_seo_impact
                          (''High crawl delays detected: '' @ repr_delays env high_delays) a3)
                else a3);
          a5 = (if parse_errors pd \<noteq> []
                then add_seo_impact ''Syntax errors may cause rules to be ignored''
                       (add_recommendation
                          (''Fix '' @ str_nat (length (parse_errors pd)) @
                           '' syntax errors in robots.txt'') a4)
                else a4);
          a6 = (if warnings pd \<noteq> []
                then add_recommendation
                       (''Review '' @ str_nat (length (warnings pd)) @ '' warnings in robots.txt'')
                       a5
                else a5);
          has_specific_rules =
            list_ex (\<lambda>(ua, rules). lower ua \<in> set (map lower search_engines)) (user_agents pd);
          a7 = (if has_specific_rules
                then add_recommendation
                       ''Good: Specific rules for major search engines detected'' a6
                else a6)
      in if completely_blocked (crawlability_info a7)
         then a7\<lparr>crawlability_info := (crawlability_info a7)\<lparr>allows_crawling := False\<rparr>\<rparr>
         else if length blocked_important > 0
         then a7\<lparr>crawlability_info := (crawlability_info a7)\<lparr>partially_blocked := True\<rparr>\<rparr>
         else a7)"

record robots_txt_status =
  found :: bool
  accessible :: bool
  rts_status_code :: int
  rts_content_length :: nat
  rts_content_type :: string
  rts_url :: "string option"
  rts_error :: "string option"

record robots_report =
  status :: robots_txt_status
  parsed_content :: parsed_robots
  analysis :: robots_analysis
  raw_content :: "string option"
  audit_url :: string
  robots_txt_url :: "string option"

definition check_robots_txt :: "urllib \<Rightarrow> robots_env \<Rightarrow> string \<Rightarrow> string + robots_report" where
  \<comment> \<open>\<open>Inl\<close> is the dictionary that holds only the key \<open>error\<close>\<close>
  "check_robots_txt lib env u =
     (if \<not> is_valid_url lib u
      then Inl ''Invalid URL provided. URL must include http:// or https://''
      else if \<not> requests_available env
      then Inl ''requests library is not installed. Install with: pip install requests''
      else (let fr = fetch_robots_txt lib env u;
                st = \<lparr>found = (success fr \<and> fetch_status_code fr = Some 200),
                      accessible = success fr,
                      rts_status_code = (case fetch_status_code fr of None \<Rightarrow> 0 | Some c \<Rightarrow> c),
                      rts_content_length = (case content_length fr of None \<Rightarrow> 0 | Some n \<Rightarrow> n),
                      rts_content_type = (case content_type fr of None \<Rightarrow> [] | Some t \<Rightarrow> t),
                      rts_url = fetch_url fr,
                      rts_error = (if \<not> success fr then fetch_error fr else None)\<rparr>;
                nonempty = (case content fr of None \<Rightarrow> False | Some t \<Rightarrow> t \<noteq> [])
            in if found st \<and> nonempty
               then (let pc = parse_robots_txt env (the (content fr))
                     in Inr \<lparr>status = st, parsed_content = pc,
                             analysis = analyze_robots_txt env pc u,
                             raw_content = content fr, audit_url = u, robots_txt_url = rts_url st\<rparr>)
               else if accessible st
               then (let pc = parse_robots_txt env [];
                         a = analyze_robots_txt env pc u;
                         a' = (if fetch_status_code fr = Some 404
                               then add_recommendation
                                      ''Consider creating a robots.txt file to control crawler behavior''
                                      (add_seo_impact (''No robots.txt found - search engines will '' @
                                                       ''crawl all accessible content'') a)
                               else a)
                     in Inr \<lparr>status = st, parsed_content = pc, analysis = a',
                             raw_content = None, audit_url = u, robots_txt_url = rts_url st\<rparr>)
               else (let pc = parse_robots_txt env [];
                         a = analyze_robots_txt env pc u;
                         a' = add_recommendation
                                ''Ensure robots.txt is accessible at the domain root''
                                (add_seo_impact
                                   (''robots.txt inaccessible: '' @
                                    (case fetch_error fr of None \<Rightarrow> ''Unknown error'' | Some e \<Rightarrow> e))
                                   a)
                     in Inr \<lparr>status = st, parsed_content = pc, analysis = a',
                             raw_content = None, audit_url = u, robots_txt_url = rts_url st\<rparr>)))"

definition fixture_robots_env :: robots_env where
  \<comment> \<open>a server that has no \<open>/robots.txt\<close>\<close>
  "fixture_robots_env =
     \<lparr>requests_available = True,
      http_get = (\<lambda>u. Response 404 ''<html>Not Found</html>'' (Some ''text/html'')),
      float_parses = (\<lambda>v. False), float_above_10 = (\<lambda>v. False), repr_delays = (\<lambda>d. [])\<rparr>"


text \<open>
  C8. For a valid URL, with \<open>requests\<close> available, when the GET of \<open>/robots.txt\<close> on the
  URL's scheme and network location returns a response with status 404, \<open>check_robots_txt\<close>
  returns a report whose status has \<open>found = False\<close> and \<open>accessible = True\<close>, and whose
  analysis recommends, after the advice on sitemaps, to create a robots.txt file.
\<close>

theorem robots_txt_not_found:
  assumes "is_valid_url lib u" and "requests_available env" and "urlparse lib u = Inr p"
    and "http_get env (scheme p @ ''://'' @ netloc p @ ''/robots.txt'') = Response 404 body ctype"
  shows "\<exists>rep. check_robots_txt lib env u = Inr rep
           \<and> found (status rep) = False \<and> accessible (status rep) = True
           \<and> rts_status_code (status rep) = 404
           \<and> recommendations (analysis rep) =
               [''Consider adding sitemap URL(s) to help search engines discover content'',
                ''Consider creating a robots.txt file to control crawler behavior'']"
proof -
  have fr: "fetch_robots_txt lib env u =
      \<lparr>success = True, fetch_error = None, content = None,
       fetch_url = Some (scheme p @ ''://'' @ netloc p @ ''/robots.txt''),
       fetch_status_code = Some 404,
       content_type = Some (case ctype of None \<Rightarrow> [] | Some t \<Rightarrow> t),
       content_length = Some 0\<rparr>"
    using assms(2,3,4) by (simp add: fetch_robots_txt_def)
  have an: "recommendations (analyze_robots_txt env empty_parsed u) =
      [''Consider adding sitemap URL(s) to help search engines discover content'']"
    by (simp add: analyze_robots_txt_def empty_parsed_def add_recommendation_def
          add_seo_impact_def)
  show ?thesis
    using assms(1,2) an
    by (simp add: check_robots_txt_def fr parse_robots_txt_def add_recommendation_def
          add_seo_impact_def Let_def)
qed

theorem robots_txt_not_found_witness:
  "is_valid_url (py_urllib no_host_errors) ''https://example.com/page''
   \<and> requests_available fixture_robots_env
   \<and> urlparse (py_urllib no_host_errors) ''https://example.com/page''
       = Inr \<lparr>scheme = ''https'', netloc = ''example.com'', path = ''/page'', params = [],
              query = [], fragment = []\<rparr>
   \<and> http_get fixture_robots_env ''https://example.com/robots.txt''
       = Response 404 ''<html>Not Found</html>'' (Some ''text/html'')
   \<and> (\<exists>rep. check_robots_txt (py_urllib no_host_errors) fixture_robots_env
               ''https://example.com/page'' = Inr rep
           \<and> found (status rep) = False \<and> accessible (status rep) = True
           \<and> rts_status_code (status rep) = 404
           \<and> recommendations (analysis rep) =
               [''Consider adding sitemap URL(s) to help search engines discover content'',
                ''Consider creating a robots.txt file to control crawler behavior''])"
proof -
  let ?p = "\<lparr>scheme = ''https'', netloc = ''example.com'', path = ''/page'', params = [],
              query = [], fragment = []\<rparr>"
  have v: "is_valid_url (py_urllib no_host_errors) ''https://example.com/page''" by code_simp
  have r: "requests_available fixture_robots_env" by (simp add: fixture_robots_env_def)
  have p: "urlparse (py_urllib no_host_errors) ''https://example.com/page'' = Inr ?p"
    by code_simp
  have g: "http_get fixture_robots_env (scheme ?p @ ''://'' @ netloc ?p @ ''/robots.txt'')
       = Response 404 ''<html>Not Found</html>'' (Some ''text/html'')"
    by (simp add: fixture_robots_env_def)
  have g': "http_get fixture_robots_env ''https://example.com/robots.txt''
       = Response 404 ''<html>Not Found</html>'' (Some ''text/html'')"
    by (simp add: fixture_robots_env_def)
  show ?thesis
    using v r p g' robots_txt_not_found [OF v r p g] by blast
qed

end
